theory Spec2Isabelle
  imports Main "HOL-Library.AList" "HOL-Library.Word"
begin

section \<open>Strings of the source language\<close>

text \<open>
  The program is Python. A Python \<open>str\<close> is a sequence of code points; it is modelled
  as a \<^typ>\<open>string\<close>, one \<^typ>\<open>char\<close> per code point, which covers the code points
  below 256. On that range the three character classes below agree with CPython:
  \<open>str.isspace\<close> (also the class \<open>\s\<close> of \<open>re\<close> on \<open>str\<close> patterns), the class
  \<open>[A-Z]\<close> of \<open>re\<close>, and \<open>str.lower\<close>.
\<close>

definition newline :: char where
  "newline = CHR 0x0A"

definition backslash :: char where
  "backslash = CHR 0x5C"

definition dquote :: char where
  "dquote = CHR 0x22"

definition squote :: char where
  "squote = CHR 0x27"

definition py_isspace :: "char \<Rightarrow> bool" where
  "py_isspace c =
     (let n = (of_char c :: nat)
      in (9 \<le> n \<and> n \<le> 13) \<or> (28 \<le> n \<and> n \<le> 32) \<or> n = 133 \<or> n = 160)"

definition ascii_upper :: "char \<Rightarrow> bool" where
  \<comment> \<open>the regular-expression class \<open>[A-Z]\<close>\<close>
  "ascii_upper c = (let n = (of_char c :: nat) in 65 \<le> n \<and> n \<le> 90)"

definition py_isupper :: "char \<Rightarrow> bool" where
  \<comment> \<open>the code points below 256 that \<open>str.lower\<close> changes\<close>
  "py_isupper c =
     (let n = (of_char c :: nat)
      in (65 \<le> n \<and> n \<le> 90) \<or> (192 \<le> n \<and> n \<le> 222 \<and> n \<noteq> 215))"

definition py_lower_char :: "char \<Rightarrow> char" where
  "py_lower_char c = (if py_isupper c then char_of ((of_char c :: nat) + 32) else c)"

definition py_lower :: "string \<Rightarrow> string" where
  \<comment> \<open>\<open>s.lower()\<close>\<close>
  "py_lower s = map py_lower_char s"

definition py_strip :: "string \<Rightarrow> string" where
  \<comment> \<open>\<open>s.strip()\<close>\<close>
  "py_strip s = rev (dropWhile py_isspace (rev (dropWhile py_isspace s)))"

definition startswith :: "string \<Rightarrow> string \<Rightarrow> bool" where
  \<comment> \<open>\<open>s.startswith(p)\<close>\<close>
  "startswith s p = (take (length p) s = p)"

definition endswith :: "string \<Rightarrow> string \<Rightarrow> bool" where
  \<comment> \<open>\<open>s.endswith(p)\<close>\<close>
  "endswith s p = (length p \<le> length s \<and> drop (length s - length p) s = p)"

fun py_join :: "string \<Rightarrow> string list \<Rightarrow> string" where
  \<comment> \<open>\<open>sep.join(xs)\<close>\<close>
  "py_join sep [] = []"
| "py_join sep [x] = x"
| "py_join sep (x # y # ys) = x @ sep @ py_join sep (y # ys)"

function py_split :: "string \<Rightarrow> string list" where
  \<comment> \<open>\<open>s.split()\<close>: skip a run of whitespace, take the run of other characters, repeat\<close>
  "py_split s =
     (case dropWhile py_isspace s of
        [] \<Rightarrow> []
      | c # cs \<Rightarrow> takeWhile (\<lambda>x. \<not> py_isspace x) (c # cs)
                 # py_split (dropWhile (\<lambda>x. \<not> py_isspace x) (c # cs)))"
  by pat_completeness auto
termination
proof (relation "measure length")
  show "wf (measure length)" by simp
next
  fix s :: string and c cs
  assume h: "dropWhile py_isspace s = c # cs"
  have "\<not> py_isspace c"
    using h by (metis hd_dropWhile list.sel(1) list.distinct(1))
  then have "length (dropWhile (\<lambda>x. \<not> py_isspace x) (c # cs)) \<le> length cs"
    by (simp add: length_dropWhile_le)
  moreover have "length (c # cs) \<le> length s"
    using h length_dropWhile_le [of py_isspace s] by simp
  ultimately show "(dropWhile (\<lambda>x. \<not> py_isspace x) (c # cs), s) \<in> measure length"
    by simp
qed

declare py_split.simps [simp del]

section \<open>Text extraction\<close>

text \<open>
  \<open>extract_text_from_file\<close> reads an upload and dispatches on the lower-cased file
  name. The document readers (\<open>PyPDF2\<close>, \<open>docx\<close>, the UTF-8 codec) are libraries
  outside the repository: they are parameters of the model. Each one maps the bytes
  either to its result or to the text \<open>str(e)\<close> of the exception it raises.
  \<open>HTTPException\<close> is a subclass of \<open>Exception\<close>, so the handler of the \<open>try\<close>
  block also receives the one raised in the \<open>else\<close> branch.
\<close>

type_synonym bytes = "8 word list"

record upload_file =
  filename :: string
  content :: bytes

datatype http_exception = HTTPException (status_code: nat) (detail: string)

datatype exception = HTTPError http_exception | LibraryError string

record readers =
  pdf_page_texts :: "bytes \<Rightarrow> string + string list"
  docx_paragraph_texts :: "bytes \<Rightarrow> string + string list"
  decode_utf8 :: "bytes \<Rightarrow> string + string"
  str_http_exception :: "http_exception \<Rightarrow> string"

fun str_exception :: "readers \<Rightarrow> exception \<Rightarrow> string" where
  \<comment> \<open>\<open>str(e)\<close>\<close>
  "str_exception R (HTTPError h) = str_http_exception R h"
| "str_exception R (LibraryError m) = m"

definition extract_text_body :: "readers \<Rightarrow> upload_file \<Rightarrow> exception + string" where
  \<comment> \<open>the body of the \<open>try\<close> block\<close>
  "extract_text_body R file =
     (let name = py_lower (filename file) in
      if endswith name ''.pdf'' then
        (case pdf_page_texts R (content file) of
           Inl m \<Rightarrow> Inl (LibraryError m)
         | Inr pages \<Rightarrow> Inr (py_join '' '' pages))
      else if endswith name ''.docx'' then
        (case docx_paragraph_texts R (content file) of
           Inl m \<Rightarrow> Inl (LibraryError m)
         | Inr paragraphs \<Rightarrow> Inr (py_join '' '' (filter (\<lambda>t. t \<noteq> []) paragraphs)))
      else if endswith name ''.txt'' then
        (case decode_utf8 R (content file) of
           Inl m \<Rightarrow> Inl (LibraryError m)
         | Inr text \<Rightarrow> Inr text)
      else Inl (HTTPError (HTTPException 400 ''Unsupported file type'')))"

definition extract_text_from_file :: "readers \<Rightarrow> upload_file \<Rightarrow> http_exception + string" where
  "extract_text_from_file R file =
     (case extract_text_body R file of
        Inr text \<Rightarrow> Inr text
      | Inl e \<Rightarrow> Inl (HTTPException 500 (''Error extracting text: '' @ str_exception R e)))"

section \<open>Flattening the extracted text\<close>

definition convert_to_single_string :: "string \<Rightarrow> string" where
  \<comment> \<open>\<open>' '.join(text.split())\<close>\<close>
  "convert_to_single_string text = py_join '' '' (py_split text)"

section \<open>Recovering JSON from the model's answer\<close>

subsection \<open>Values and exceptions\<close>

text \<open>
  A parsed value is a \<open>dict\<close>, a \<open>list\<close>, a \<open>str\<close> or anything else (numbers,
  booleans, \<open>None\<close>, and the tuples, sets and bytes that \<open>ast.literal_eval\<close> can
  build), which \<open>convert_to_snake_case\<close> returns untouched. A \<open>dict\<close> is an
  association list in insertion order; the key of a \<open>dict\<close> is a \<open>str\<close> or some
  other hashable value.
\<close>

datatype 'a pykey = StrKey string | OtherKey 'a

datatype 'a pyobj =
    PStr string
  | POther 'a
  | PList "'a pyobj list"
  | PDict "('a pykey \<times> 'a pyobj) list"

datatype py_exception =
  JSONDecodeError | SyntaxError | ValueError | TypeError | RecursionError | MemoryError

fun caught :: "py_exception \<Rightarrow> bool" where
  \<comment> \<open>\<open>except (json.JSONDecodeError, SyntaxError)\<close>\<close>
  "caught JSONDecodeError = True"
| "caught SyntaxError = True"
| "caught _ = False"

text \<open>
  \<open>json.loads\<close> and \<open>ast.literal_eval\<close> are libraries outside the repository and
  parameters of the model: each maps a string to the value it returns or to the
  exception it raises.
\<close>

record 'a parsers =
  json_loads :: "string \<Rightarrow> py_exception + 'a pyobj"
  literal_eval :: "string \<Rightarrow> py_exception + 'a pyobj"

subsection \<open>Key normalisation\<close>

fun sub_before_upper :: "bool \<Rightarrow> string \<Rightarrow> string" where
  \<comment> \<open>\<open>re.sub(r'(?<!^)(?=[A-Z])', '_', k)\<close>, scanning from a position that is the start
      of the string or not: the empty match is at every position other than the
      start whose next character is in \<open>[A-Z]\<close>\<close>
  "sub_before_upper at_start [] = []"
| "sub_before_upper at_start (c # cs) =
     (if \<not> at_start \<and> ascii_upper c then CHR ''_'' # c # sub_before_upper False cs
      else c # sub_before_upper False cs)"

definition snake_key :: "string \<Rightarrow> string" where
  \<comment> \<open>\<open>re.sub(r'(?<!^)(?=[A-Z])', '_', k).lower()\<close>\<close>
  "snake_key k = py_lower (sub_before_upper True k)"

fun convert_to_snake_case :: "'a pyobj \<Rightarrow> py_exception + 'a pyobj"
  and convert_items ::
    "('a pykey \<times> 'a pyobj) list \<Rightarrow> ('a pykey \<times> 'a pyobj) list
       \<Rightarrow> py_exception + ('a pykey \<times> 'a pyobj) list"
  and convert_elems :: "'a pyobj list \<Rightarrow> py_exception + 'a pyobj list"
where
  "convert_to_snake_case (PDict items) =
     (case convert_items items [] of Inl e \<Rightarrow> Inl e | Inr d \<Rightarrow> Inr (PDict d))"
| "convert_to_snake_case (PList xs) =
     (case convert_elems xs of Inl e \<Rightarrow> Inl e | Inr ys \<Rightarrow> Inr (PList ys))"
| "convert_to_snake_case (PStr s) = Inr (PStr s)"
| "convert_to_snake_case (POther a) = Inr (POther a)"
| "convert_items [] d = Inr d"
| "convert_items ((k, v) # rest) d =
     (case k of
        OtherKey a \<Rightarrow> Inl TypeError
      | StrKey s \<Rightarrow>
          (case convert_to_snake_case v of
             Inl e \<Rightarrow> Inl e
           | Inr v' \<Rightarrow> convert_items rest (AList.update (StrKey (snake_key s)) v' d)))"
| "convert_elems [] = Inr []"
| "convert_elems (x # xs) =
     (case convert_to_snake_case x of
        Inl e \<Rightarrow> Inl e
      | Inr y \<Rightarrow> (case convert_elems xs of Inl e \<Rightarrow> Inl e | Inr ys \<Rightarrow> Inr (y # ys)))"

subsection \<open>Removing the code fence\<close>

fun remove_closing_fence :: "string \<Rightarrow> string" where
  \<comment> \<open>the alternative \<open>```$\<close>: three backticks at the end of the string, or before a
      newline that ends it\<close>
  "remove_closing_fence [] = []"
| "remove_closing_fence (c # cs) =
     (if c # cs = ''```'' \<or> c # cs = ''```'' @ [newline] then drop 3 (c # cs)
      else c # remove_closing_fence cs)"

definition remove_fences :: "string \<Rightarrow> string" where
  \<comment> \<open>\<open>re.sub(r"^```.*?\n|```$", "", t, flags=re.S)\<close>: at position 0 the first
      alternative takes the three backticks and everything up to the first newline\<close>
  "remove_fences t =
     (if startswith t ''```'' \<and> newline \<in> set t
      then remove_closing_fence (drop 1 (dropWhile (\<lambda>c. c \<noteq> newline) t))
      else remove_closing_fence t)"

definition working_string :: "string \<Rightarrow> string" where
  \<comment> \<open>the value of \<open>json_string\<close> after the \<open>if\<close> that removes a Markdown code block\<close>
  "working_string json_string =
     (if startswith (py_strip json_string) ''```'' \<and> endswith (py_strip json_string) ''```''
      then remove_fences (py_strip json_string)
      else json_string)"

subsection \<open>The parsing attempts\<close>

function remove_escaped_newlines :: "string \<Rightarrow> string" where
  \<comment> \<open>\<open>re.sub(r'\\n\s*', '', s)\<close>\<close>
  "remove_escaped_newlines (c # d # rest) =
     (if c = backslash \<and> d = CHR ''n''
      then remove_escaped_newlines (dropWhile py_isspace rest)
      else c # remove_escaped_newlines (d # rest))"
| "remove_escaped_newlines [c] = [c]"
| "remove_escaped_newlines [] = []"
  by pat_completeness auto
termination
  by (relation "measure length") (auto simp: length_dropWhile_le less_Suc_eq_le le_SucI)

fun replace_pair :: "char \<Rightarrow> char \<Rightarrow> string \<Rightarrow> string \<Rightarrow> string" where
  \<comment> \<open>\<open>s.replace(old, new)\<close> for a two-character \<open>old\<close>\<close>
  "replace_pair a b new (c # d # rest) =
     (if c = a \<and> d = b then new @ replace_pair a b new rest
      else c # replace_pair a b new (d # rest))"
| "replace_pair a b new s = s"

fun blank_escapes :: "string \<Rightarrow> string" where
  \<comment> \<open>\<open>re.sub(r'\\["\'ntr]', ' ', s)\<close>\<close>
  "blank_escapes (c # d # rest) =
     (if c = backslash \<and> d \<in> set [dquote, squote, CHR ''n'', CHR ''t'', CHR ''r'']
      then CHR '' '' # blank_escapes rest
      else c # blank_escapes (d # rest))"
| "blank_escapes s = s"

definition parsing_attempts :: "'a parsers \<Rightarrow> (string \<Rightarrow> py_exception + 'a pyobj) list" where
  "parsing_attempts P =
     [\<lambda>s. json_loads P s,
      \<lambda>s. json_loads P (remove_escaped_newlines s),
      \<lambda>s. json_loads P
             (replace_pair backslash (CHR ''n'') '' '' (replace_pair backslash dquote [dquote] s)),
      \<lambda>s. json_loads P (blank_escapes s),
      \<lambda>s. literal_eval P s]"

definition failure_record :: "string \<Rightarrow> 'a pyobj" where
  "failure_record json_string =
     PDict [(StrKey ''error'', PStr ''Failed to parse JSON''),
            (StrKey ''original_string'', PStr json_string),
            (StrKey ''error_details'', PStr ''All parsing attempts failed'')]"

fun try_attempts ::
  "(string \<Rightarrow> py_exception + 'a pyobj) list \<Rightarrow> string
     \<Rightarrow> py_exception + 'a pyobj option" where
  \<comment> \<open>the \<open>for\<close> loop: \<open>Some\<close> is a \<open>return\<close> from inside the loop, \<open>None\<close> the end of
      the loop without one\<close>
  "try_attempts [] json_string = Inr None"
| "try_attempts (attempt # rest) json_string =
     (case attempt json_string of
        Inl e \<Rightarrow> if caught e then try_attempts rest json_string else Inl e
      | Inr parsed_json \<Rightarrow>
          (case convert_to_snake_case parsed_json of
             Inl e \<Rightarrow> if caught e then try_attempts rest json_string else Inl e
           | Inr cleaned_json \<Rightarrow> Inr (Some cleaned_json)))"

definition clean_json_string :: "'a parsers \<Rightarrow> string \<Rightarrow> py_exception + 'a pyobj" where
  "clean_json_string P json_string =
     (let json_string = working_string json_string
      in case try_attempts (parsing_attempts P) json_string of
           Inl e \<Rightarrow> Inl e
         | Inr (Some cleaned_json) \<Rightarrow> Inr cleaned_json
         | Inr None \<Rightarrow> Inr (failure_record json_string))"

section \<open>Notions used in the statements\<close>

text \<open>
  \<open>interleave gaps words\<close> writes a text as gap, word, gap, word, ..., gap;
  \<open>adjacent_spaces\<close> says that two whitespace characters stand next to each other.
\<close>

fun interleave :: "string list \<Rightarrow> string list \<Rightarrow> string" where
  "interleave (g # gs) (w # ws) = g @ w @ interleave gs ws"
| "interleave [g] [] = g"
| "interleave _ _ = []"

fun adjacent_spaces :: "string \<Rightarrow> bool" where
  "adjacent_spaces (a # b # cs) = ((py_isspace a \<and> py_isspace b) \<or> adjacent_spaces (b # cs))"
| "adjacent_spaces _ = False"

text \<open>
  The key transformation in words: an underscore before each uppercase letter that is
  not the first character, then the whole key in lowercase. \<open>underscore_rule\<close> takes
  the letters that count as uppercase as a parameter. \<open>spec_snake_key\<close> is the rule
  for every uppercase letter, \<open>str.isupper\<close> on the code points below 256;
  \<open>underscore_rule ascii_upper\<close> is the rule for the letters \<open>A\<close> to \<open>Z\<close>.
\<close>

definition underscore_rule :: "(char \<Rightarrow> bool) \<Rightarrow> string \<Rightarrow> string" where
  "underscore_rule upper k =
     py_lower (concat (map (\<lambda>i. if 0 < i \<and> upper (k ! i) then [CHR ''_'', k ! i] else [k ! i])
                           [0..<length k]))"

definition spec_snake_key :: "string \<Rightarrow> string" where
  "spec_snake_key k = underscore_rule py_isupper k"

text \<open>
  An instance of the document readers, for the examples. \<open>str\<close> of an
  \<open>HTTPException\<close> is its status code, a colon, a space and its detail.
\<close>

fun digit_char :: "nat \<Rightarrow> char" where
  "digit_char n = char_of (48 + n)"

function str_nat :: "nat \<Rightarrow> string" where
  \<comment> \<open>\<open>str(n)\<close> of a natural number\<close>
  "str_nat n = (if n < 10 then [digit_char n] else str_nat (n div 10) @ [digit_char (n mod 10)])"
  by pat_completeness auto
termination
  by (relation "measure id") auto

declare str_nat.simps [simp del]

definition sample_readers :: readers where
  "sample_readers =
     \<lparr>pdf_page_texts = (\<lambda>_. Inr ['''', ''World'']),
      docx_paragraph_texts = (\<lambda>_. Inr [''Hello'', '''', ''World'']),
      decode_utf8 = (\<lambda>_. Inl ''invalid start byte''),
      str_http_exception = (\<lambda>h. str_nat (status_code h) @ '': '' @ detail h)\<rparr>"

text \<open>
  Predicates on parsed values: \<open>keys_all ok v\<close> says that every key of every
  dictionary in \<open>v\<close>, as far as \<open>convert_to_snake_case\<close> walks, satisfies \<open>ok\<close>;
  \<open>distinct_keys v\<close> says that no dictionary in \<open>v\<close> has a key twice.
\<close>

fun keys_all :: "('a pykey \<Rightarrow> bool) \<Rightarrow> 'a pyobj \<Rightarrow> bool"
  and keys_all_items :: "('a pykey \<Rightarrow> bool) \<Rightarrow> ('a pykey \<times> 'a pyobj) list \<Rightarrow> bool"
  and keys_all_elems :: "('a pykey \<Rightarrow> bool) \<Rightarrow> 'a pyobj list \<Rightarrow> bool"
where
  "keys_all ok (PDict items) = keys_all_items ok items"
| "keys_all ok (PList xs) = keys_all_elems ok xs"
| "keys_all ok (PStr s) = True"
| "keys_all ok (POther a) = True"
| "keys_all_items ok [] = True"
| "keys_all_items ok ((k, v) # rest) = (ok k \<and> keys_all ok v \<and> keys_all_items ok rest)"
| "keys_all_elems ok [] = True"
| "keys_all_elems ok (x # xs) = (keys_all ok x \<and> keys_all_elems ok xs)"

fun distinct_keys :: "'a pyobj \<Rightarrow> bool"
  and distinct_keys_items :: "('a pykey \<times> 'a pyobj) list \<Rightarrow> bool"
  and distinct_keys_elems :: "'a pyobj list \<Rightarrow> bool"
where
  "distinct_keys (PDict items) = (distinct (map fst items) \<and> distinct_keys_items items)"
| "distinct_keys (PList xs) = distinct_keys_elems xs"
| "distinct_keys (PStr s) = True"
| "distinct_keys (POther a) = True"
| "distinct_keys_items [] = True"
| "distinct_keys_items ((k, v) # rest) = (distinct_keys v \<and> distinct_keys_items rest)"
| "distinct_keys_elems [] = True"
| "distinct_keys_elems (x # xs) = (distinct_keys x \<and> distinct_keys_elems xs)"

fun str_key :: "'a pykey \<Rightarrow> bool" where
  "str_key (StrKey s) = True"
| "str_key (OtherKey a) = False"

fun lower_key :: "'a pykey \<Rightarrow> bool" where
  "lower_key (StrKey s) = list_all (\<lambda>c. \<not> py_isupper c) s"
| "lower_key (OtherKey a) = False"

fun normalised_key :: "'a pykey \<Rightarrow> 'a pykey" where
  "normalised_key (StrKey s) = StrKey (snake_key s)"
| "normalised_key (OtherKey a) = OtherKey a"

text \<open>
  Snake-casing every key of a value recursively, in words: in every dictionary, at
  every depth, each string key is rewritten by the rule for the letters \<open>A\<close> to \<open>Z\<close>
  and each value is rewritten in turn; a list is rewritten element by element; every
  other value is kept. \<open>dict_of_pairs\<close> is Python's \<open>dict\<close> of a list of pairs: the
  pairs are inserted in turn, a later pair replacing the value of an equal key.
\<close>

definition dict_of_pairs :: "('k \<times> 'v) list \<Rightarrow> ('k \<times> 'v) list" where
  "dict_of_pairs pairs = foldl (\<lambda>d (k, v). AList.update k v d) [] pairs"

fun snake_cased :: "'a pyobj \<Rightarrow> 'a pyobj"
  and snake_cased_items :: "('a pykey \<times> 'a pyobj) list \<Rightarrow> ('a pykey \<times> 'a pyobj) list"
  and snake_cased_elems :: "'a pyobj list \<Rightarrow> 'a pyobj list"
where
  "snake_cased (PDict items) = PDict (dict_of_pairs (snake_cased_items items))"
| "snake_cased (PList xs) = PList (snake_cased_elems xs)"
| "snake_cased (PStr s) = PStr s"
| "snake_cased (POther a) = POther a"
| "snake_cased_items [] = []"
| "snake_cased_items ((k, v) # rest) =
     (case k of
        StrKey s \<Rightarrow> (StrKey (underscore_rule ascii_upper s), snake_cased v)
      | OtherKey a \<Rightarrow> (OtherKey a, snake_cased v))
     # snake_cased_items rest"
| "snake_cased_elems [] = []"
| "snake_cased_elems (x # xs) = snake_cased x # snake_cased_elems xs"

text \<open>
  A JSON text that is an integer without a sign: \<open>0\<close>, or a digit other than \<open>0\<close>
  followed by digits.
\<close>

definition json_integer :: "string \<Rightarrow> bool" where
  "json_integer s =
     (s = ''0'' \<or> (s \<noteq> [] \<and> hd s \<in> set ''123456789'' \<and> list_all (\<lambda>c. c \<in> set ''0123456789'') s))"

text \<open>
  An instance of the parsers, for the examples. On the strings of the examples it
  returns what CPython 3.11 returns: the object of \<open>jane_json\<close> from \<open>json.loads\<close>;
  \<open>ValueError\<close> from \<open>json.loads\<close> on the integer of 5000 digits \<open>1\<close>, which exceeds
  the limit of 4300 digits for the conversion of a string to an integer;
  \<open>JSONDecodeError\<close> from \<open>json.loads\<close> and \<open>ValueError\<close> from \<open>ast.literal_eval\<close> on
  \<open>hello\<close>; \<open>JSONDecodeError\<close> and \<open>SyntaxError\<close> on \<open>not json at all\<close>.
\<close>

definition jane_json :: string where
  "jane_json = ''{'' @ [dquote] @ ''candidateName'' @ [dquote] @ '': '' @ [dquote] @ ''Jane''
     @ [dquote] @ '', '' @ [dquote] @ ''scoreOutOfTen'' @ [dquote] @ '': 7}''"

definition sample_parsers :: "int parsers" where
  "sample_parsers =
     \<lparr>json_loads = (\<lambda>s. if s = jane_json
                         then Inr (PDict [(StrKey ''candidateName'', PStr ''Jane''),
                                          (StrKey ''scoreOutOfTen'', POther 7)])
                         else if s = replicate 5000 (CHR ''1'') then Inl ValueError
                         else Inl JSONDecodeError),
      literal_eval = (\<lambda>s. if s = ''hello'' then Inl ValueError else Inl SyntaxError)\<rparr>"

section \<open>The flattened text\<close>

lemma py_split_word:
  "w \<in> set (py_split s) \<Longrightarrow> w \<noteq> [] \<and> (\<forall>c\<in>set w. \<not> py_isspace c)"
proof (induction s rule: py_split.induct)
  case (1 s)
  show ?case
  proof (cases "dropWhile py_isspace s")
    case Nil
    with "1.prems" show ?thesis by (simp add: py_split.simps [of s])
  next
    case (Cons c cs)
    have nc: "\<not> py_isspace c"
      using Cons by (metis hd_dropWhile list.sel(1) list.distinct(1))
    from "1.prems" Cons
    have "w = takeWhile (\<lambda>x. \<not> py_isspace x) (c # cs)
          \<or> w \<in> set (py_split (dropWhile (\<lambda>x. \<not> py_isspace x) (c # cs)))"
      by (simp add: py_split.simps [of s])
    then show ?thesis
    proof
      assume w: "w = takeWhile (\<lambda>x. \<not> py_isspace x) (c # cs)"
      then have "w \<noteq> []" using nc by simp
      moreover have "\<forall>x\<in>set w. \<not> py_isspace x"
        unfolding w by (auto dest: set_takeWhileD)
      ultimately show ?thesis by simp
    next
      assume "w \<in> set (py_split (dropWhile (\<lambda>x. \<not> py_isspace x) (c # cs)))"
      then show ?thesis by (rule "1.IH" [OF Cons])
    qed
  qed
qed

lemma interleave_starts_with_word:
  assumes "py_split r = w # ws" and "interleave ([] # grest) (py_split r) = r"
  shows "r \<noteq> [] \<and> \<not> py_isspace (hd r)"
proof -
  have "w \<in> set (py_split r)" using assms(1) by simp
  then have "w \<noteq> [] \<and> (\<forall>c\<in>set w. \<not> py_isspace c)" by (rule py_split_word)
  then obtain x xs where w: "w = x # xs" and nx: "\<not> py_isspace x" by (cases w) auto
  have "interleave ([] # grest) (w # ws) = r" using assms by simp
  then have "r = x # xs @ interleave grest ws" using w by simp
  then show ?thesis using nx by simp
qed

lemma py_split_decompose:
  "\<exists>gaps. length gaps = Suc (length (py_split s))
     \<and> (\<forall>g\<in>set gaps. \<forall>c\<in>set g. py_isspace c)
     \<and> (\<forall>i. 0 < i \<and> i < length (py_split s) \<longrightarrow> gaps ! i \<noteq> [])
     \<and> interleave gaps (py_split s) = s"
proof (induction s rule: py_split.induct)
  case (1 s)
  show ?case
  proof (cases "dropWhile py_isspace s")
    case Nil
    have "py_split s = []" by (subst py_split.simps) (simp add: Nil)
    moreover have "\<forall>c\<in>set s. py_isspace c"
      using Nil by (simp add: dropWhile_eq_Nil_conv)
    ultimately show ?thesis
      by (intro exI [of _ "[s]"]) simp
  next
    case (Cons c cs)
    define w where "w = takeWhile (\<lambda>x. \<not> py_isspace x) (c # cs)"
    define r where "r = dropWhile (\<lambda>x. \<not> py_isspace x) (c # cs)"
    define g where "g = takeWhile py_isspace s"
    have sp: "py_split s = w # py_split r"
      unfolding w_def r_def by (subst py_split.simps) (simp add: Cons)
    from "1.IH" [OF Cons] obtain gaps where
      g1: "length gaps = Suc (length (py_split r))" and
      g2: "\<forall>g\<in>set gaps. \<forall>c\<in>set g. py_isspace c" and
      g3: "\<forall>i. 0 < i \<and> i < length (py_split r) \<longrightarrow> gaps ! i \<noteq> []" and
      g4: "interleave gaps (py_split r) = r"
      unfolding r_def by blast
    have "s = g @ dropWhile py_isspace s" unfolding g_def by simp
    also have "dropWhile py_isspace s = w @ r"
      unfolding Cons w_def r_def by simp
    finally have s_eq: "s = g @ w @ r" .
    have gsp: "\<forall>c\<in>set g. py_isspace c"
      unfolding g_def by (auto dest: set_takeWhileD)
    obtain g0 grest where gaps: "gaps = g0 # grest"
      using g1 by (cases gaps) auto
    have r_head: "r \<noteq> [] \<Longrightarrow> py_isspace (hd r)"
      unfolding r_def using hd_dropWhile [of "\<lambda>x. \<not> py_isspace x" "c # cs"] by blast
    have first_gap: "g0 \<noteq> []" if ne: "py_split r \<noteq> []"
    proof
      assume z: "g0 = []"
      obtain v vs where vs: "py_split r = v # vs" using ne by (cases "py_split r") auto
      have "interleave ([] # grest) (py_split r) = r" using g4 gaps z by simp
      from interleave_starts_with_word [OF vs this] r_head show False by blast
    qed
    have "length (g # gaps) = Suc (length (py_split s))" using g1 sp by simp
    moreover have "\<forall>h\<in>set (g # gaps). \<forall>c\<in>set h. py_isspace c" using g2 gsp by simp
    moreover have "\<forall>i. 0 < i \<and> i < length (py_split s) \<longrightarrow> (g # gaps) ! i \<noteq> []"
    proof (intro allI impI)
      fix i assume i: "0 < i \<and> i < length (py_split s)"
      then obtain j where j: "i = Suc j" by (cases i) auto
      show "(g # gaps) ! i \<noteq> []"
      proof (cases j)
        case 0
        have "py_split r \<noteq> []" using i j 0 sp by auto
        then show ?thesis using first_gap j 0 gaps by simp
      next
        case (Suc k)
        then show ?thesis using g3 i j sp by simp
      qed
    qed
    moreover have "interleave (g # gaps) (py_split s) = s"
      using sp g4 s_eq by simp
    ultimately show ?thesis by blast
  qed
qed


lemma adjacent_spaces_after_word:
  "\<forall>c\<in>set w. \<not> py_isspace c \<Longrightarrow> adjacent_spaces (w @ d # rest) = adjacent_spaces (d # rest)"
proof (induction w)
  case Nil
  then show ?case by simp
next
  case (Cons a w)
  then show ?case by (cases w) auto
qed

lemma no_adjacent_spaces_in_word:
  "\<forall>c\<in>set w. \<not> py_isspace c \<Longrightarrow> \<not> adjacent_spaces w"
  by (induction w rule: adjacent_spaces.induct) auto

lemma py_join_head:
  "ws \<noteq> [] \<Longrightarrow> \<forall>w\<in>set ws. w \<noteq> [] \<Longrightarrow>
     py_join sep ws \<noteq> [] \<and> hd (py_join sep ws) = hd (hd ws)"
  by (induction sep ws rule: py_join.induct) auto

lemma py_join_last:
  "ws \<noteq> [] \<Longrightarrow> \<forall>w\<in>set ws. w \<noteq> [] \<Longrightarrow> last (py_join sep ws) = last (last ws)"
proof (induction sep ws rule: py_join.induct)
  case (3 sep x y ys)
  have "py_join sep (y # ys) \<noteq> []" using py_join_head [of "y # ys" sep] 3 by simp
  then show ?case using 3 by simp
qed auto

lemma py_join_words_no_adjacent_spaces:
  "\<forall>w\<in>set ws. w \<noteq> [] \<and> (\<forall>c\<in>set w. \<not> py_isspace c) \<Longrightarrow>
     \<not> adjacent_spaces (py_join '' '' ws)"
proof (induction "'' ''" ws rule: py_join.induct)
  case 1
  then show ?case by simp
next
  case (2 x)
  then show ?case by (simp add: no_adjacent_spaces_in_word)
next
  case (3 x y ys)
  have ne: "py_join '' '' (y # ys) \<noteq> []" and h: "hd (py_join '' '' (y # ys)) = hd y"
    using py_join_head [of "y # ys" "'' ''"] 3 by simp_all
  obtain a r where r: "py_join '' '' (y # ys) = a # r" using ne by (cases "py_join '' '' (y # ys)") auto
  have "a = hd y" using h r by simp
  moreover have "y \<noteq> []" "\<forall>c\<in>set y. \<not> py_isspace c" using 3 by simp_all
  ultimately have na: "\<not> py_isspace a" by (cases y) auto
  have IH: "\<not> adjacent_spaces (a # r)" using 3 r by simp
  have "adjacent_spaces (py_join '' '' (x # y # ys)) = adjacent_spaces (CHR '' '' # a # r)"
    using 3 r adjacent_spaces_after_word [of x "CHR '' ''" "a # r"] by simp
  then show ?case using na IH by simp
qed

lemma adjacent_spaces_iff:
  "adjacent_spaces s \<longleftrightarrow> (\<exists>i. Suc i < length s \<and> py_isspace (s ! i) \<and> py_isspace (s ! Suc i))"
proof (induction s rule: adjacent_spaces.induct)
  case (1 a b cs)
  show ?case
  proof
    assume "adjacent_spaces (a # b # cs)"
    then consider "py_isspace a \<and> py_isspace b" | "adjacent_spaces (b # cs)" by auto
    then show "\<exists>i. Suc i < length (a # b # cs) \<and> py_isspace ((a # b # cs) ! i)
                 \<and> py_isspace ((a # b # cs) ! Suc i)"
    proof cases
      case 1
      then show ?thesis by (intro exI [of _ 0]) simp
    next
      case 2
      then obtain i where "Suc i < length (b # cs)" "py_isspace ((b # cs) ! i)"
        "py_isspace ((b # cs) ! Suc i)" using "1.IH" by blast
      then show ?thesis by (intro exI [of _ "Suc i"]) simp
    qed
  next
    assume "\<exists>i. Suc i < length (a # b # cs) \<and> py_isspace ((a # b # cs) ! i)
                 \<and> py_isspace ((a # b # cs) ! Suc i)"
    then obtain i where i: "Suc i < length (a # b # cs)" "py_isspace ((a # b # cs) ! i)"
        "py_isspace ((a # b # cs) ! Suc i)" by blast
    show "adjacent_spaces (a # b # cs)"
    proof (cases i)
      case 0
      then show ?thesis using i by simp
    next
      case (Suc j)
      then have "Suc j < length (b # cs) \<and> py_isspace ((b # cs) ! j) \<and> py_isspace ((b # cs) ! Suc j)"
        using i by simp
      then show ?thesis using "1.IH" by auto
    qed
  qed
qed simp_all

text \<open>
  Claim C9. For every input, the result of \<open>convert_to_single_string\<close> has no two
  consecutive whitespace characters and neither starts nor ends with one; it is the
  input's words joined by single spaces, where the words are the maximal runs of
  characters that are not whitespace: the input is a gap of whitespace, a word, a
  non-empty gap, a word, and so on, ending with a gap.
\<close>

theorem convert_to_single_string_collapses_whitespace:
  "(\<forall>i. Suc i < length (convert_to_single_string text) \<longrightarrow>
        \<not> (py_isspace (convert_to_single_string text ! i)
           \<and> py_isspace (convert_to_single_string text ! Suc i)))
   \<and> (convert_to_single_string text \<noteq> [] \<longrightarrow>
        \<not> py_isspace (hd (convert_to_single_string text))
        \<and> \<not> py_isspace (last (convert_to_single_string text)))
   \<and> (\<exists>words gaps.
        convert_to_single_string text = py_join '' '' words
        \<and> (\<forall>w\<in>set words. w \<noteq> [] \<and> (\<forall>c\<in>set w. \<not> py_isspace c))
        \<and> length gaps = Suc (length words)
        \<and> (\<forall>g\<in>set gaps. \<forall>c\<in>set g. py_isspace c)
        \<and> (\<forall>i. 0 < i \<and> i < length words \<longrightarrow> gaps ! i \<noteq> [])
        \<and> interleave gaps words = text)"
proof (intro conjI)
  let ?out = "convert_to_single_string text"
  have words: "\<forall>w\<in>set (py_split text). w \<noteq> [] \<and> (\<forall>c\<in>set w. \<not> py_isspace c)"
    using py_split_word by blast
  have "\<not> adjacent_spaces ?out"
    unfolding convert_to_single_string_def
    by (rule py_join_words_no_adjacent_spaces [OF words])
  then show "\<forall>i. Suc i < length ?out \<longrightarrow> \<not> (py_isspace (?out ! i) \<and> py_isspace (?out ! Suc i))"
    by (simp add: adjacent_spaces_iff)
  show "?out \<noteq> [] \<longrightarrow> \<not> py_isspace (hd ?out) \<and> \<not> py_isspace (last ?out)"
  proof
    assume ne: "?out \<noteq> []"
    then have sne: "py_split text \<noteq> []"
      by (auto simp: convert_to_single_string_def)
    have nonempty: "\<forall>w\<in>set (py_split text). w \<noteq> []" using words by blast
    have "hd ?out = hd (hd (py_split text))" "last ?out = last (last (py_split text))"
      unfolding convert_to_single_string_def
      using py_join_head [OF sne nonempty] py_join_last [OF sne nonempty] by simp_all
    moreover have "hd (py_split text) \<in> set (py_split text)" "last (py_split text) \<in> set (py_split text)"
      using sne by simp_all
    then have "\<not> py_isspace (hd (hd (py_split text)))" "\<not> py_isspace (last (last (py_split text)))"
      using words by (metis hd_in_set, metis last_in_set)
    ultimately show "\<not> py_isspace (hd ?out) \<and> \<not> py_isspace (last ?out)" by simp
  qed
  obtain gaps where "length gaps = Suc (length (py_split text))"
      "\<forall>g\<in>set gaps. \<forall>c\<in>set g. py_isspace c"
      "\<forall>i. 0 < i \<and> i < length (py_split text) \<longrightarrow> gaps ! i \<noteq> []"
      "interleave gaps (py_split text) = text"
    using py_split_decompose [of "text"] by blast
  then show "\<exists>words gaps.
        ?out = py_join '' '' words
        \<and> (\<forall>w\<in>set words. w \<noteq> [] \<and> (\<forall>c\<in>set w. \<not> py_isspace c))
        \<and> length gaps = Suc (length words)
        \<and> (\<forall>g\<in>set gaps. \<forall>c\<in>set g. py_isspace c)
        \<and> (\<forall>i. 0 < i \<and> i < length words \<longrightarrow> gaps ! i \<noteq> [])
        \<and> interleave gaps words = text"
    using words unfolding convert_to_single_string_def by blast
qed

lemma sample_flattened:
  "convert_to_single_string (''  Jane'' @ [newline] @ '' Doe   CV '') = ''Jane Doe CV''"
  by code_simp

theorem convert_to_single_string_collapses_whitespace_witness:
  "convert_to_single_string (''  Jane'' @ [newline] @ '' Doe   CV '') = ''Jane Doe CV''
   \<and> Suc 4 < length (convert_to_single_string (''  Jane'' @ [newline] @ '' Doe   CV ''))
   \<and> \<not> (py_isspace (convert_to_single_string (''  Jane'' @ [newline] @ '' Doe   CV '') ! 4)
        \<and> py_isspace (convert_to_single_string (''  Jane'' @ [newline] @ '' Doe   CV '') ! Suc 4))
   \<and> convert_to_single_string (''  Jane'' @ [newline] @ '' Doe   CV '') \<noteq> []
   \<and> \<not> py_isspace (hd (convert_to_single_string (''  Jane'' @ [newline] @ '' Doe   CV '')))
   \<and> \<not> py_isspace (last (convert_to_single_string (''  Jane'' @ [newline] @ '' Doe   CV '')))"
proof -
  let ?t = "''  Jane'' @ [newline] @ '' Doe   CV ''"
  note inst = convert_to_single_string_collapses_whitespace [of ?t]
  have len: "Suc 4 < length (convert_to_single_string ?t)" and ne: "convert_to_single_string ?t \<noteq> []"
    unfolding sample_flattened by simp_all
  from inst len have "\<not> (py_isspace (convert_to_single_string ?t ! 4)
        \<and> py_isspace (convert_to_single_string ?t ! Suc 4))" by blast
  moreover from inst ne have "\<not> py_isspace (hd (convert_to_single_string ?t))
     \<and> \<not> py_isspace (last (convert_to_single_string ?t))" by blast
  ultimately show ?thesis using sample_flattened len ne by blast
qed

section \<open>The key transformation\<close>

lemma of_char_less_256: "(of_char c :: nat) < 256"
  by (cases c) simp

lemma ascii_upper_is_upper: "ascii_upper c \<Longrightarrow> py_isupper c"
  by (simp add: ascii_upper_def py_isupper_def Let_def)

lemma py_lower_char_not_upper: "\<not> py_isupper (py_lower_char c)"
proof (cases "py_isupper c")
  case False
  then show ?thesis by (simp add: py_lower_char_def)
next
  case True
  define n where "n = (of_char c :: nat)"
  have n: "(65 \<le> n \<and> n \<le> 90) \<or> (192 \<le> n \<and> n \<le> 222 \<and> n \<noteq> 215)"
    using True by (simp add: py_isupper_def n_def Let_def)
  have "(of_char (char_of (n + 32)) :: nat) = n + 32"
    using n by auto
  then show ?thesis
    using n True unfolding py_lower_char_def py_isupper_def n_def [symmetric] Let_def
    by auto
qed

lemma py_lower_char_upper_not_underscore:
  "py_isupper c \<Longrightarrow> py_lower_char c \<noteq> CHR ''_''"
proof -
  assume u: "py_isupper c"
  define n where "n = (of_char c :: nat)"
  have n: "(65 \<le> n \<and> n \<le> 90) \<or> (192 \<le> n \<and> n \<le> 222 \<and> n \<noteq> 215)"
    using u by (simp add: py_isupper_def n_def Let_def)
  have oc: "(of_char (char_of (n + 32)) :: nat) = n + 32"
    using n by auto
  have "char_of (n + 32) \<noteq> CHR ''_''"
  proof
    assume "char_of (n + 32) = CHR ''_''"
    then have "(of_char (char_of (n + 32)) :: nat) = of_char (CHR ''_'')" by (rule arg_cong)
    then have "n + 32 = 95" unfolding oc by simp
    then show False using n by arith
  qed
  then show ?thesis using u by (simp add: py_lower_char_def n_def)
qed

lemma py_lower_char_id: "\<not> py_isupper c \<Longrightarrow> py_lower_char c = c"
  by (simp add: py_lower_char_def)

lemma py_lower_id: "\<forall>c\<in>set s. \<not> py_isupper c \<Longrightarrow> py_lower s = s"
  by (simp add: py_lower_def py_lower_char_id map_idI)

lemma sub_before_upper_id:
  "\<forall>c\<in>set s. \<not> ascii_upper c \<Longrightarrow> sub_before_upper b s = s"
  by (induction s arbitrary: b) auto

lemma sub_before_upper_concat:
  "sub_before_upper b k =
     concat (map (\<lambda>i. if (\<not> b \<or> 0 < i) \<and> ascii_upper (k ! i) then [CHR ''_'', k ! i] else [k ! i])
                 [0..<length k])"
proof (induction k arbitrary: b)
  case Nil
  then show ?case by simp
next
  case (Cons c cs)
  have "[0..<length (c # cs)] = 0 # map Suc [0..<length cs]"
    by (simp add: upt_conv_Cons map_Suc_upt del: upt_Suc)
  then show ?case
    using Cons [of False] by (simp add: comp_def del: upt_Suc cong: if_cong)
qed

lemma snake_key_no_upper: "c \<in> set (snake_key k) \<Longrightarrow> \<not> py_isupper c"
  by (auto simp: snake_key_def py_lower_def py_lower_char_not_upper)

lemma snake_key_id: "\<forall>c\<in>set k. \<not> py_isupper c \<Longrightarrow> snake_key k = k"
proof -
  assume h: "\<forall>c\<in>set k. \<not> py_isupper c"
  then have "\<forall>c\<in>set k. \<not> ascii_upper c" using ascii_upper_is_upper by blast
  then show ?thesis using h by (simp add: snake_key_def sub_before_upper_id py_lower_id)
qed

lemma snake_key_underscore_rule: "snake_key k = underscore_rule ascii_upper k"
  by (simp add: snake_key_def underscore_rule_def sub_before_upper_concat)

text \<open>
  Claim C5, amended. The key transformation inserts an underscore before each letter
  \<open>A\<close> to \<open>Z\<close> that is not the first character of the key, then lowercases the whole
  key; an uppercase letter outside \<open>A\<close> to \<open>Z\<close> is lowercased and gets no underscore.
  \<open>overallScore\<close> becomes \<open>overall_score\<close>; a key without any uppercase letter, as a
  key in snake case or in lowercase is, is unchanged; a key that begins with an
  uppercase letter begins, transformed, with that letter in lowercase and not with an
  underscore.
\<close>

theorem snake_key_rule:
  "snake_key k = underscore_rule ascii_upper k
   \<and> snake_key ''overallScore'' = ''overall_score''
   \<and> ((\<forall>c\<in>set k. \<not> py_isupper c) \<longrightarrow> snake_key k = k)
   \<and> (k \<noteq> [] \<and> py_isupper (hd k) \<longrightarrow>
        hd (snake_key k) = py_lower_char (hd k) \<and> hd (snake_key k) \<noteq> CHR ''_'')"
proof (intro conjI)
  show "snake_key k = underscore_rule ascii_upper k"
    by (rule snake_key_underscore_rule)
  show "snake_key ''overallScore'' = ''overall_score''"
    by code_simp
  show "(\<forall>c\<in>set k. \<not> py_isupper c) \<longrightarrow> snake_key k = k"
    using snake_key_id by blast
  show "k \<noteq> [] \<and> py_isupper (hd k) \<longrightarrow>
        hd (snake_key k) = py_lower_char (hd k) \<and> hd (snake_key k) \<noteq> CHR ''_''"
  proof
    assume h: "k \<noteq> [] \<and> py_isupper (hd k)"
    then obtain c cs where k: "k = c # cs" by (cases k) auto
    have "hd (snake_key k) = py_lower_char c"
      by (simp add: k snake_key_def py_lower_def)
    then show "hd (snake_key k) = py_lower_char (hd k) \<and> hd (snake_key k) \<noteq> CHR ''_''"
      using h k py_lower_char_upper_not_underscore by simp
  qed
qed

theorem snake_key_rule_witness:
  "list_all (\<lambda>c. \<not> py_isupper c) ''overall_score''
   \<and> snake_key ''overall_score'' = ''overall_score''
   \<and> ''OverallScore'' \<noteq> [] \<and> py_isupper (hd ''OverallScore'')
   \<and> hd (snake_key ''OverallScore'') = CHR ''o''
   \<and> snake_key ''OverallScore'' = underscore_rule ascii_upper ''OverallScore''"
proof -
  have a: "list_all (\<lambda>c. \<not> py_isupper c) ''overall_score''"
    by (simp add: py_isupper_def Let_def)
  then have a': "\<forall>c\<in>set ''overall_score''. \<not> py_isupper c"
    unfolding list_all_iff .
  have b: "''OverallScore'' \<noteq> [] \<and> py_isupper (hd ''OverallScore'')"
    by (simp add: py_isupper_def Let_def)
  have c: "py_lower_char (hd ''OverallScore'') = CHR ''o''"
    by code_simp
  from snake_key_rule [of "''overall_score''"] a'
  have "snake_key ''overall_score'' = ''overall_score''" by blast
  moreover from snake_key_rule [of "''OverallScore''"] b c
  have "hd (snake_key ''OverallScore'') = CHR ''o''
        \<and> snake_key ''OverallScore'' = underscore_rule ascii_upper ''OverallScore''" by metis
  ultimately show ?thesis using a b by blast
qed

text \<open>
  Claim C5 as stated fails: in the key \<open>a\<close> followed by the capital E with acute
  accent (code point 0xC9), that capital is an uppercase letter and is not the first
  character, and the transformed key is \<open>a\<close> followed by the small e with acute accent
  (0xE9), without the underscore that the rule for every uppercase letter puts there.
\<close>

theorem snake_key_capital_outside_A_to_Z_counterexample:
  "py_isupper (CHR 0xC9)
   \<and> snake_key [CHR ''a'', CHR 0xC9] = [CHR ''a'', CHR 0xE9]
   \<and> spec_snake_key [CHR ''a'', CHR 0xC9] = [CHR ''a'', CHR ''_'', CHR 0xE9]
   \<and> snake_key [CHR ''a'', CHR 0xC9] \<noteq> spec_snake_key [CHR ''a'', CHR 0xC9]"
  by code_simp

section \<open>Extraction\<close>

lemma endswith_last: "endswith s p \<Longrightarrow> p \<noteq> [] \<Longrightarrow> last s = last p"
proof -
  assume e: "endswith s p" and ne: "p \<noteq> []"
  then have "drop (length s - length p) s = p" by (simp add: endswith_def)
  then have "last (drop (length s - length p) s) = last p" by simp
  moreover have "length s - length p < length s" using e ne by (cases p) (auto simp: endswith_def)
  ultimately show ?thesis by (simp add: last_drop)
qed

lemma docx_is_not_pdf: "endswith s ''.docx'' \<Longrightarrow> \<not> endswith s ''.pdf''"
proof
  assume "endswith s ''.docx''" and "endswith s ''.pdf''"
  then have "last s = CHR ''x''" "last s = CHR ''f''"
    using endswith_last [of s "''.docx''"] endswith_last [of s "''.pdf''"] by simp_all
  then show False by simp
qed

lemma extract_pdf:
  "endswith (py_lower (filename file)) ''.pdf'' \<Longrightarrow> pdf_page_texts R (content file) = Inr pages
     \<Longrightarrow> extract_text_from_file R file = Inr (py_join '' '' pages)"
  by (simp add: extract_text_from_file_def extract_text_body_def)

lemma extract_docx:
  "endswith (py_lower (filename file)) ''.docx'' \<Longrightarrow>
     docx_paragraph_texts R (content file) = Inr paragraphs
     \<Longrightarrow> extract_text_from_file R file = Inr (py_join '' '' (filter (\<lambda>t. t \<noteq> []) paragraphs))"
  using docx_is_not_pdf [of "py_lower (filename file)"]
  by (simp add: extract_text_from_file_def extract_text_body_def)

lemma extract_unsupported:
  "\<not> endswith (py_lower (filename file)) ''.pdf'' \<Longrightarrow>
   \<not> endswith (py_lower (filename file)) ''.docx'' \<Longrightarrow>
   \<not> endswith (py_lower (filename file)) ''.txt'' \<Longrightarrow>
   extract_text_from_file R file =
     Inl (HTTPException 500 (''Error extracting text: ''
            @ str_http_exception R (HTTPException 400 ''Unsupported file type'')))"
  by (simp add: extract_text_from_file_def extract_text_body_def)

text \<open>
  Claim C7. For a file name ending in \<open>.pdf\<close> the extracted text is the page texts
  joined by single spaces, empty pages included: pages \<open>["", "World"]\<close> give
  \<open>" World"\<close>. For a file name ending in \<open>.docx\<close> it is the non-empty paragraph texts
  joined by single spaces: paragraphs \<open>["Hello", "", "World"]\<close> give \<open>"Hello World"\<close>.
\<close>

theorem extraction_keeps_empty_pages_and_skips_empty_paragraphs:
  "(endswith (py_lower (filename file)) ''.pdf'' \<and> pdf_page_texts R (content file) = Inr pages
      \<longrightarrow> extract_text_from_file R file = Inr (py_join '' '' pages))
   \<and> (endswith (py_lower (filename file)) ''.docx''
        \<and> docx_paragraph_texts R (content file) = Inr paragraphs
      \<longrightarrow> extract_text_from_file R file = Inr (py_join '' '' (filter (\<lambda>t. t \<noteq> []) paragraphs)))
   \<and> py_join '' '' ['''', ''World''] = '' World''
   \<and> py_join '' '' (filter (\<lambda>t. t \<noteq> []) [''Hello'', '''', ''World'']) = ''Hello World''"
  using extract_pdf extract_docx by simp

theorem extraction_keeps_empty_pages_and_skips_empty_paragraphs_witness:
  "endswith (py_lower (filename \<lparr>filename = ''CV.PDF'', content = []\<rparr>)) ''.pdf''
   \<and> pdf_page_texts sample_readers (content \<lparr>filename = ''CV.PDF'', content = []\<rparr>)
       = Inr ['''', ''World'']
   \<and> extract_text_from_file sample_readers \<lparr>filename = ''CV.PDF'', content = []\<rparr>
       = Inr '' World''
   \<and> endswith (py_lower (filename \<lparr>filename = ''cv.docx'', content = []\<rparr>)) ''.docx''
   \<and> docx_paragraph_texts sample_readers (content \<lparr>filename = ''cv.docx'', content = []\<rparr>)
       = Inr [''Hello'', '''', ''World'']
   \<and> extract_text_from_file sample_readers \<lparr>filename = ''cv.docx'', content = []\<rparr>
       = Inr ''Hello World''"
proof -
  have a: "endswith (py_lower (filename \<lparr>filename = ''CV.PDF'', content = []\<rparr>)) ''.pdf''"
    by code_simp
  have b: "pdf_page_texts sample_readers (content \<lparr>filename = ''CV.PDF'', content = []\<rparr>)
             = Inr ['''', ''World'']"
    by (simp add: sample_readers_def)
  have c: "endswith (py_lower (filename \<lparr>filename = ''cv.docx'', content = []\<rparr>)) ''.docx''"
    by code_simp
  have d: "docx_paragraph_texts sample_readers (content \<lparr>filename = ''cv.docx'', content = []\<rparr>)
             = Inr [''Hello'', '''', ''World'']"
    by (simp add: sample_readers_def)
  from extraction_keeps_empty_pages_and_skips_empty_paragraphs
         [of "\<lparr>filename = ''CV.PDF'', content = []\<rparr>" sample_readers "['''', ''World'']"] a b
  have e: "extract_text_from_file sample_readers \<lparr>filename = ''CV.PDF'', content = []\<rparr>
             = Inr (py_join '' '' ['''', ''World''])" by blast
  from extraction_keeps_empty_pages_and_skips_empty_paragraphs
         [of "\<lparr>filename = ''cv.docx'', content = []\<rparr>" sample_readers _
             "[''Hello'', '''', ''World'']"] c d
  have f: "extract_text_from_file sample_readers \<lparr>filename = ''cv.docx'', content = []\<rparr>
             = Inr (py_join '' '' (filter (\<lambda>t. t \<noteq> []) [''Hello'', '''', ''World'']))" by blast
  show ?thesis using a b c d e f by simp
qed

text \<open>
  Claim C2 says that an unsupported extension fails with a client error. The
  \<open>HTTPException\<close> with status 400 is raised inside the \<open>try\<close> block, whose handler
  catches every \<open>Exception\<close> and raises status 500 in its place: for the upload
  \<open>resume.rtf\<close>, whatever its bytes and whatever the libraries do, the caller receives
  status 500 with the detail \<open>Error extracting text: \<close> followed by the text of the
  caught exception.
\<close>

theorem unsupported_extension_is_reported_as_server_error:
  "extract_text_from_file R \<lparr>filename = ''resume.rtf'', content = c\<rparr> =
     Inl (HTTPException 500 (''Error extracting text: ''
            @ str_http_exception R (HTTPException 400 ''Unsupported file type'')))"
proof -
  have "\<not> endswith (py_lower (filename \<lparr>filename = ''resume.rtf'', content = c\<rparr>)) ''.pdf''"
       "\<not> endswith (py_lower (filename \<lparr>filename = ''resume.rtf'', content = c\<rparr>)) ''.docx''"
       "\<not> endswith (py_lower (filename \<lparr>filename = ''resume.rtf'', content = c\<rparr>)) ''.txt''"
    by (simp_all, code_simp+)
  from extract_unsupported [OF this, of R] show ?thesis by simp
qed

lemma unsupported_extension_detail:
  "extract_text_from_file sample_readers \<lparr>filename = ''resume.rtf'', content = c\<rparr> =
     Inl (HTTPException 500 ''Error extracting text: 400: Unsupported file type'')"
proof -
  have "str_nat 400 = ''400''" by code_simp
  then have "str_http_exception sample_readers (HTTPException 400 ''Unsupported file type'')
               = ''400: Unsupported file type''"
    by (simp add: sample_readers_def)
  moreover have
    "\<not> endswith (py_lower (filename \<lparr>filename = ''resume.rtf'', content = c\<rparr>)) ''.pdf''"
    "\<not> endswith (py_lower (filename \<lparr>filename = ''resume.rtf'', content = c\<rparr>)) ''.docx''"
    "\<not> endswith (py_lower (filename \<lparr>filename = ''resume.rtf'', content = c\<rparr>)) ''.txt''"
    by (simp_all, code_simp+)
  ultimately show ?thesis
    using extract_unsupported [of "\<lparr>filename = ''resume.rtf'', content = c\<rparr>" sample_readers]
    by simp
qed

section \<open>The code fence\<close>

lemma remove_closing_fence_append: "remove_closing_fence (xs @ ''```'') = xs"
proof (induction xs)
  case Nil
  show ?case by simp
next
  case (Cons c cs)
  have "c # cs @ ''```'' \<noteq> ''```''" by (cases cs) auto
  moreover have "c # cs @ ''```'' \<noteq> ''```'' @ [newline]"
  proof
    assume "c # cs @ ''```'' = ''```'' @ [newline]"
    then have "last (c # cs @ ''```'') = last (''```'' @ [newline])" by (rule arg_cong)
    then show False by (simp add: newline_def)
  qed
  ultimately show ?case using Cons by simp
qed

lemma endswith_split: "endswith t p \<Longrightarrow> \<exists>rest. t = rest @ p"
  by (metis append_take_drop_id endswith_def)

lemma startswith_split: "startswith t p \<Longrightarrow> \<exists>rest. t = p @ rest"
  by (metis append_take_drop_id startswith_def)

lemma fenced_without_newline:
  assumes "endswith t ''```''" and "newline \<notin> set t"
  shows "\<exists>rest. t = rest @ ''```'' \<and> remove_fences t = rest"
proof -
  obtain rest where "t = rest @ ''```''" using endswith_split [OF assms(1)] by blast
  then show ?thesis using assms(2) by (auto simp: remove_fences_def remove_closing_fence_append)
qed

lemma fenced_with_newline:
  assumes s: "startswith t ''```''" and e: "endswith t ''```''" and n: "newline \<in> set t"
  shows "\<exists>info interior. t = ''```'' @ info @ [newline] @ interior @ ''```''
           \<and> newline \<notin> set info \<and> remove_fences t = interior"
proof -
  define line where "line = takeWhile (\<lambda>c. c \<noteq> newline) t"
  define after where "after = drop 1 (dropWhile (\<lambda>c. c \<noteq> newline) t)"
  have dw: "dropWhile (\<lambda>c. c \<noteq> newline) t = newline # after"
  proof -
    have "dropWhile (\<lambda>c. c \<noteq> newline) t \<noteq> []" using n by (simp add: dropWhile_eq_Nil_conv)
    then obtain x xs where x: "dropWhile (\<lambda>c. c \<noteq> newline) t = x # xs"
      by (cases "dropWhile (\<lambda>c. c \<noteq> newline) t") auto
    then have "x = newline" using hd_dropWhile [of "\<lambda>c. c \<noteq> newline" t] by auto
    then show ?thesis using x by (simp add: after_def)
  qed
  have t: "t = line @ newline # after"
    unfolding line_def dw [symmetric] by simp
  have line_free: "newline \<notin> set line"
    unfolding line_def by (auto dest: set_takeWhileD)
  obtain r where r: "t = ''```'' @ r" using startswith_split [OF s] by blast
  have "take 3 line = ''```''"
  proof -
    have "takeWhile (\<lambda>c. c \<noteq> newline) (''```'' @ r) = ''```'' @ takeWhile (\<lambda>c. c \<noteq> newline) r"
      by (simp add: newline_def)
    then show ?thesis unfolding line_def r by simp
  qed
  then obtain info where line: "line = ''```'' @ info"
    by (metis append_take_drop_id)
  obtain front where front: "t = front @ ''```''" using endswith_split [OF e] by blast
  have "\<exists>interior. after = interior @ ''```''"
  proof -
    have "(line @ [newline]) @ after = front @ ''```''" using t front by simp
    then consider
        (short) us where "line @ [newline] = front @ us" and "us @ after = ''```''"
      | (long) us where "after = us @ ''```''"
      unfolding append_eq_append_conv2 by blast
    then show ?thesis
    proof cases
      case short
      show ?thesis
      proof (cases "us = []")
        case True
        then have "after = [] @ ''```''" using short(2) by simp
        then show ?thesis by blast
      next
        case False
        have "last (line @ [newline]) = last (front @ us)" using short(1) by simp
        then have "last us = newline" using False by simp
        moreover have "last us \<in> set us" using False by simp
        moreover have "set us \<subseteq> set (us @ after)" by simp
        ultimately have "newline \<in> set (us @ after)" by (metis subsetD)
        then have "newline \<in> set ''```''" unfolding short(2) .
        then show ?thesis by (simp add: newline_def)
      qed
    next
      case long
      then show ?thesis by blast
    qed
  qed
  then obtain interior where interior: "after = interior @ ''```''" by blast
  have "remove_fences t = remove_closing_fence after"
    using s n by (simp add: remove_fences_def after_def)
  then have "remove_fences t = interior"
    by (simp add: interior remove_closing_fence_append)
  moreover have "t = ''```'' @ info @ [newline] @ interior @ ''```''"
    using t line interior by simp
  moreover have "newline \<notin> set info" using line_free line by simp
  ultimately show ?thesis by blast
qed

text \<open>
  Claim C8, amended. If the trimmed input does not both start and end with three
  backticks, the working string is the input itself, unchanged and not trimmed. If it
  does and the trimmed input contains a newline, the working string is the interior:
  the trimmed input without its first line (the three backticks and everything up to
  and including the first newline) and without the three closing backticks. If it does
  and the trimmed input contains no newline, only the three closing backticks are
  removed.
\<close>

theorem working_string_cases:
  "(\<not> (startswith (py_strip s) ''```'' \<and> endswith (py_strip s) ''```'') \<longrightarrow> working_string s = s)
   \<and> (startswith (py_strip s) ''```'' \<and> endswith (py_strip s) ''```'' \<and> newline \<in> set (py_strip s)
        \<longrightarrow> (\<exists>info interior.
               py_strip s = ''```'' @ info @ [newline] @ interior @ ''```''
               \<and> newline \<notin> set info \<and> working_string s = interior))
   \<and> (startswith (py_strip s) ''```'' \<and> endswith (py_strip s) ''```'' \<and> newline \<notin> set (py_strip s)
        \<longrightarrow> (\<exists>rest. py_strip s = rest @ ''```'' \<and> working_string s = rest))"
proof (intro conjI impI)
  assume "\<not> (startswith (py_strip s) ''```'' \<and> endswith (py_strip s) ''```'')"
  then show "working_string s = s" by (auto simp: working_string_def)
next
  assume h: "startswith (py_strip s) ''```'' \<and> endswith (py_strip s) ''```''
             \<and> newline \<in> set (py_strip s)"
  then have "working_string s = remove_fences (py_strip s)" by (simp add: working_string_def)
  then show "\<exists>info interior.
               py_strip s = ''```'' @ info @ [newline] @ interior @ ''```''
               \<and> newline \<notin> set info \<and> working_string s = interior"
    using fenced_with_newline [of "py_strip s"] h by simp
next
  assume h: "startswith (py_strip s) ''```'' \<and> endswith (py_strip s) ''```''
             \<and> newline \<notin> set (py_strip s)"
  then have "working_string s = remove_fences (py_strip s)" by (simp add: working_string_def)
  then show "\<exists>rest. py_strip s = rest @ ''```'' \<and> working_string s = rest"
    using fenced_without_newline [of "py_strip s"] h by simp
qed


theorem working_string_cases_witness:
  "\<not> (startswith (py_strip '' {} '') ''```'' \<and> endswith (py_strip '' {} '') ''```'')
   \<and> working_string '' {} '' = '' {} ''
   \<and> startswith (py_strip ('' ```json'' @ [newline] @ ''{}'' @ [newline] @ ''``` '')) ''```''
   \<and> endswith (py_strip ('' ```json'' @ [newline] @ ''{}'' @ [newline] @ ''``` '')) ''```''
   \<and> newline \<in> set (py_strip ('' ```json'' @ [newline] @ ''{}'' @ [newline] @ ''``` ''))
   \<and> (\<exists>info interior.
         py_strip ('' ```json'' @ [newline] @ ''{}'' @ [newline] @ ''``` '')
           = ''```'' @ info @ [newline] @ interior @ ''```''
         \<and> newline \<notin> set info
         \<and> working_string ('' ```json'' @ [newline] @ ''{}'' @ [newline] @ ''``` '') = interior)
   \<and> working_string ('' ```json'' @ [newline] @ ''{}'' @ [newline] @ ''``` '') = ''{}'' @ [newline]
   \<and> startswith (py_strip ''```{}```'') ''```'' \<and> endswith (py_strip ''```{}```'') ''```''
   \<and> newline \<notin> set (py_strip ''```{}```'')
   \<and> (\<exists>rest. py_strip ''```{}```'' = rest @ ''```'' \<and> working_string ''```{}```'' = rest)"
proof -
  let ?f = "'' ```json'' @ [newline] @ ''{}'' @ [newline] @ ''``` ''"
  have a: "\<not> (startswith (py_strip '' {} '') ''```'' \<and> endswith (py_strip '' {} '') ''```'')"
    by code_simp
  have b: "startswith (py_strip ?f) ''```'' \<and> endswith (py_strip ?f) ''```''
           \<and> newline \<in> set (py_strip ?f)"
    by code_simp
  have c: "startswith (py_strip ''```{}```'') ''```'' \<and> endswith (py_strip ''```{}```'') ''```''
           \<and> newline \<notin> set (py_strip ''```{}```'')"
    by code_simp
  have d: "working_string ?f = ''{}'' @ [newline]"
    by code_simp
  from working_string_cases [of "'' {} ''"] a
  have 1: "working_string '' {} '' = '' {} ''" by blast
  from working_string_cases [of ?f] b
  have 2: "\<exists>info interior. py_strip ?f = ''```'' @ info @ [newline] @ interior @ ''```''
             \<and> newline \<notin> set info \<and> working_string ?f = interior" by blast
  from working_string_cases [of "''```{}```''"] c
  have 3: "\<exists>rest. py_strip ''```{}```'' = rest @ ''```'' \<and> working_string ''```{}```'' = rest"
    by blast
  show ?thesis using a b c d 1 2 3 by blast
qed

text \<open>
  Claim C8 as stated fails: the input \<open>" {} "\<close> has no fence and its working string
  is the input with its spaces, not the trimmed input; the input \<open>```{}```\<close> has the
  fence and its working string \<open>```{}\<close> keeps the opening backticks.
\<close>

theorem working_string_is_not_trimmed_counterexample:
  "\<not> (startswith (py_strip '' {} '') ''```'' \<and> endswith (py_strip '' {} '') ''```'')
   \<and> working_string '' {} '' \<noteq> py_strip '' {} ''
   \<and> startswith (py_strip ''```{}```'') ''```'' \<and> endswith (py_strip ''```{}```'') ''```''
   \<and> working_string ''```{}```'' = ''```{}''"
  by code_simp

section \<open>Normalising the keys of a parsed value\<close>

lemma convert_succeeds:
  fixes v :: "'a pyobj" and items d :: "('a pykey \<times> 'a pyobj) list" and xs :: "'a pyobj list"
  shows "keys_all str_key v \<Longrightarrow> \<exists>r. convert_to_snake_case v = Inr r"
    and "keys_all_items str_key items \<Longrightarrow> \<exists>r. convert_items items d = Inr r"
    and "keys_all_elems str_key xs \<Longrightarrow> \<exists>r. convert_elems xs = Inr r"
proof (induction v and items d and xs
       rule: convert_to_snake_case_convert_items_convert_elems.induct)
  case (6 k v rest d)
  from "6.prems" have sk: "str_key k" and kv: "keys_all str_key v"
    and kr: "keys_all_items str_key rest" by simp_all
  obtain s where k: "k = StrKey s" using sk by (cases k) auto
  from "6.IH"(1) [OF k kv] obtain v' where v': "convert_to_snake_case v = Inr v'" by blast
  from "6.IH"(2) [OF k v' kr] obtain r where
    "convert_items rest (AList.update (StrKey (snake_key s)) v' d) = Inr r" by blast
  then show ?case using k v' by simp
qed (auto split: sum.splits)


lemma update_keys_all_items:
  "keys_all_items ok d \<Longrightarrow> ok k \<Longrightarrow> keys_all ok v \<Longrightarrow> keys_all_items ok (AList.update k v d)"
  by (induction d) auto

lemma update_distinct_keys_items:
  "distinct_keys_items d \<Longrightarrow> distinct_keys v \<Longrightarrow> distinct_keys_items (AList.update k v d)"
  by (induction d) auto

lemma update_new_key:
  "k \<notin> fst ` set d \<Longrightarrow> AList.update k v d = d @ [(k, v)]"
  by (induction d) auto

lemma lower_key_snake_key: "lower_key (StrKey (snake_key s))"
  using snake_key_no_upper [of _ s] by (auto simp: list_all_iff)

lemma convert_normalises:
  fixes v r :: "'a pyobj" and items d rd :: "('a pykey \<times> 'a pyobj) list"
    and xs rs :: "'a pyobj list"
  shows "convert_to_snake_case v = Inr r \<Longrightarrow> distinct_keys r \<and> keys_all lower_key r"
    and "convert_items items d = Inr rd \<Longrightarrow> distinct (map fst d) \<Longrightarrow> distinct_keys_items d
           \<Longrightarrow> keys_all_items lower_key d
           \<Longrightarrow> distinct (map fst rd) \<and> distinct_keys_items rd \<and> keys_all_items lower_key rd"
    and "convert_elems xs = Inr rs \<Longrightarrow> distinct_keys_elems rs \<and> keys_all_elems lower_key rs"
proof (induction v and items d and xs arbitrary: r and rd and rs
       rule: convert_to_snake_case_convert_items_convert_elems.induct)
  case (1 items)
  from "1.prems" obtain rd where rd: "convert_items items [] = Inr rd" and r: "r = PDict rd"
    by (auto split: sum.splits)
  from "1.IH" [OF rd] show ?case using r by simp
next
  case (2 xs)
  from "2.prems" obtain rs where rs: "convert_elems xs = Inr rs" and r: "r = PList rs"
    by (auto split: sum.splits)
  from "2.IH" [OF rs] show ?case using r by simp
next
  case (6 k v rest d)
  from "6.prems"(1) obtain s v' where k: "k = StrKey s"
    and v': "convert_to_snake_case v = Inr v'"
    and rest: "convert_items rest (AList.update (StrKey (snake_key s)) v' d) = Inr rd"
    by (auto split: pykey.splits sum.splits)
  have nv: "distinct_keys v' \<and> keys_all lower_key v'" using "6.IH"(1) [OF k v'] .
  let ?d = "AList.update (StrKey (snake_key s)) v' d"
  have "distinct (map fst ?d)" using "6.prems"(2) by (rule distinct_update)
  moreover have "distinct_keys_items ?d"
    using "6.prems"(3) nv by (simp add: update_distinct_keys_items)
  moreover have "keys_all_items lower_key ?d"
    using "6.prems"(4) nv lower_key_snake_key by (simp add: update_keys_all_items)
  ultimately show ?case using "6.IH"(2) [OF k v' rest] by blast
next
  case (8 x xs)
  from "8.prems" obtain y ys where y: "convert_to_snake_case x = Inr y"
    and ys: "convert_elems xs = Inr ys" and rs: "rs = y # ys"
    by (auto split: sum.splits)
  from "8.IH"(1) [OF y] "8.IH"(2) [OF y ys] show ?case using rs by simp
qed auto

lemma convert_fixed:
  fixes v :: "'a pyobj" and items d :: "('a pykey \<times> 'a pyobj) list" and xs :: "'a pyobj list"
  shows "distinct_keys v \<Longrightarrow> keys_all lower_key v \<Longrightarrow> convert_to_snake_case v = Inr v"
    and "distinct (map fst (d @ items)) \<Longrightarrow> distinct_keys_items items
           \<Longrightarrow> keys_all_items lower_key items \<Longrightarrow> convert_items items d = Inr (d @ items)"
    and "distinct_keys_elems xs \<Longrightarrow> keys_all_elems lower_key xs \<Longrightarrow> convert_elems xs = Inr xs"
proof (induction v and items d and xs
       rule: convert_to_snake_case_convert_items_convert_elems.induct)
  case (1 items)
  then show ?case by simp
next
  case (6 k v rest d)
  from "6.prems" have lk: "lower_key k" and kv: "keys_all lower_key v"
    and kr: "keys_all_items lower_key rest" and dv: "distinct_keys v"
    and dr: "distinct_keys_items rest" by simp_all
  obtain s where k: "k = StrKey s" using lk by (cases k) auto
  have "\<forall>c\<in>set s. \<not> py_isupper c" using lk k by (simp add: list_all_iff)
  then have sk: "snake_key s = s" by (rule snake_key_id)
  have v: "convert_to_snake_case v = Inr v" using "6.IH"(1) [OF k dv kv] .
  have "k \<notin> fst ` set d" using "6.prems"(1) by auto
  then have u: "AList.update (StrKey (snake_key s)) v d = d @ [(k, v)]"
    using k sk by (simp add: update_new_key)
  have "distinct (map fst (AList.update (StrKey (snake_key s)) v d @ rest))"
    unfolding u using "6.prems"(1) by simp
  from "6.IH"(2) [OF k v this dr kr]
  show ?case using k v u by simp
qed auto

text \<open>
  Claim C6. The recursive key normalisation is idempotent. A value whose keys, at
  every depth, are strings without an uppercase letter (as keys in snake case are),
  and whose dictionaries have distinct keys, as every Python \<open>dict\<close> has, is returned
  equal to itself. And whenever \<open>convert_to_snake_case\<close> returns a value, applying it
  to that value returns the same value again.
\<close>

theorem convert_to_snake_case_idempotent:
  "(distinct_keys obj \<and> keys_all lower_key obj \<longrightarrow> convert_to_snake_case obj = Inr obj)
   \<and> (convert_to_snake_case obj = Inr once \<longrightarrow> convert_to_snake_case once = Inr once)"
  using convert_fixed(1) [of obj] convert_normalises(1) [of obj once] convert_fixed(1) [of once]
  by blast


theorem convert_to_snake_case_idempotent_witness:
  "distinct_keys (PDict [(StrKey ''overall_score'', POther (7::nat)),
                         (StrKey ''skills'', PList [PDict [(StrKey ''name'', PStr ''SQL'')]])])
   \<and> keys_all lower_key (PDict [(StrKey ''overall_score'', POther (7::nat)),
                         (StrKey ''skills'', PList [PDict [(StrKey ''name'', PStr ''SQL'')]])])
   \<and> convert_to_snake_case (PDict [(StrKey ''overall_score'', POther (7::nat)),
                         (StrKey ''skills'', PList [PDict [(StrKey ''name'', PStr ''SQL'')]])])
       = Inr (PDict [(StrKey ''overall_score'', POther 7),
                     (StrKey ''skills'', PList [PDict [(StrKey ''name'', PStr ''SQL'')]])])
   \<and> convert_to_snake_case (PDict [(StrKey ''overallScore'', POther (7::nat))])
       = Inr (PDict [(StrKey ''overall_score'', POther 7)])
   \<and> convert_to_snake_case (PDict [(StrKey ''overall_score'', POther (7::nat))])
       = Inr (PDict [(StrKey ''overall_score'', POther 7)])"
proof -
  let ?obj = "PDict [(StrKey ''overall_score'', POther (7::nat)),
                     (StrKey ''skills'', PList [PDict [(StrKey ''name'', PStr ''SQL'')]])]"
  have a: "distinct_keys ?obj \<and> keys_all lower_key ?obj"
    by code_simp
  have b: "convert_to_snake_case (PDict [(StrKey ''overallScore'', POther (7::nat))])
             = Inr (PDict [(StrKey ''overall_score'', POther 7)])"
    by code_simp
  from convert_to_snake_case_idempotent [of ?obj] a
  have c: "convert_to_snake_case ?obj = Inr ?obj" by blast
  from convert_to_snake_case_idempotent
         [of "PDict [(StrKey ''overallScore'', POther (7::nat))]"
             "PDict [(StrKey ''overall_score'', POther 7)]"] b
  have d: "convert_to_snake_case (PDict [(StrKey ''overall_score'', POther (7::nat))])
             = Inr (PDict [(StrKey ''overall_score'', POther 7)])" by blast
  show ?thesis using a b c d by blast
qed

lemma convert_items_other_key:
  "convert_items items d = Inr rd \<Longrightarrow>
   \<forall>(k, v)\<in>set items. \<forall>s. k = StrKey s \<longrightarrow> snake_key s \<noteq> t \<Longrightarrow>
   map_of rd (StrKey t) = map_of d (StrKey t)"
proof (induction items arbitrary: d)
  case Nil
  then show ?case by simp
next
  case (Cons kv items)
  obtain k v where kv: "kv = (k, v)" by (cases kv)
  from Cons.prems(1) obtain s v' where k: "k = StrKey s"
    and rest: "convert_items items (AList.update (StrKey (snake_key s)) v' d) = Inr rd"
    unfolding kv by (auto split: pykey.splits sum.splits)
  have ne: "snake_key s \<noteq> t" using Cons.prems(2) kv k by auto
  have "map_of rd (StrKey t) = map_of (AList.update (StrKey (snake_key s)) v' d) (StrKey t)"
    using Cons.IH [OF rest] Cons.prems(2) by simp
  then show ?case using ne by (simp add: update_conv')
qed

lemma convert_items_last_binding:
  "convert_items (front @ (StrKey k2, v2) # after) d = Inr rd \<Longrightarrow>
   \<forall>(k, v)\<in>set after. \<forall>s. k = StrKey s \<longrightarrow> snake_key s \<noteq> snake_key k2 \<Longrightarrow>
   \<exists>v2'. convert_to_snake_case v2 = Inr v2' \<and> map_of rd (StrKey (snake_key k2)) = Some v2'"
proof (induction front arbitrary: d)
  case Nil
  from Nil(1) obtain v2' where v2': "convert_to_snake_case v2 = Inr v2'"
    and rest: "convert_items after (AList.update (StrKey (snake_key k2)) v2' d) = Inr rd"
    by (auto split: sum.splits)
  have "map_of rd (StrKey (snake_key k2))
          = map_of (AList.update (StrKey (snake_key k2)) v2' d) (StrKey (snake_key k2))"
    using convert_items_other_key [OF rest Nil(2)] .
  then show ?case using v2' by (simp add: update_conv')
next
  case (Cons kv front)
  obtain k v where kv: "kv = (k, v)" by (cases kv)
  from Cons.prems(1) obtain s v' where
    rest: "convert_items (front @ (StrKey k2, v2) # after)
             (AList.update (StrKey (snake_key s)) v' d) = Inr rd"
    unfolding kv by (auto split: pykey.splits sum.splits)
  from Cons.IH [OF rest Cons.prems(2)] show ?case .
qed

lemma convert_items_distinct:
  "convert_items items d = Inr rd \<Longrightarrow> distinct (map fst d) \<Longrightarrow> distinct (map fst rd)"
proof (induction items arbitrary: d)
  case Nil
  then show ?case by simp
next
  case (Cons kv items)
  obtain k v where kv: "kv = (k, v)" by (cases kv)
  from Cons.prems(1) obtain s v' where
    rest: "convert_items items (AList.update (StrKey (snake_key s)) v' d) = Inr rd"
    unfolding kv by (auto split: pykey.splits sum.splits)
  show ?case using Cons.IH [OF rest] Cons.prems(2) by (simp add: distinct_update)
qed

lemma convert_items_keys:
  "convert_items items d = Inr rd \<Longrightarrow>
   fst ` set rd = fst ` set d \<union> normalised_key ` fst ` set items"
proof (induction items arbitrary: d)
  case Nil
  then show ?case by simp
next
  case (Cons kv items)
  obtain k v where kv: "kv = (k, v)" by (cases kv)
  from Cons.prems(1) obtain s v' where k: "k = StrKey s"
    and rest: "convert_items items (AList.update (StrKey (snake_key s)) v' d) = Inr rd"
    unfolding kv by (auto split: pykey.splits sum.splits)
  have "fst ` set (AList.update (StrKey (snake_key s)) v' d)
          = insert (StrKey (snake_key s)) (fst ` set d)"
    by (induction d) auto
  then show ?case using Cons.IH [OF rest] kv k by auto
qed


text \<open>
  Claim C10. Let two distinct keys \<open>k1\<close> and \<open>k2\<close> of one dictionary have the same
  snake-case form, \<open>k2\<close> being the last key of the dictionary with that form, and let
  all keys, at every depth, be strings. Then \<open>convert_to_snake_case\<close> raises nothing
  and returns a dictionary that binds the common form to the transformed value of
  \<open>k2\<close>, once only: the keys of the result are distinct and the result has fewer
  entries than the input.
\<close>

theorem colliding_keys_last_one_wins:
  assumes items: "items = before @ (StrKey k1, v1) # between @ (StrKey k2, v2) # after"
    and different: "k1 \<noteq> k2"
    and collide: "snake_key k1 = snake_key k2"
    and last: "\<forall>(k, v)\<in>set after. \<forall>s. k = StrKey s \<longrightarrow> snake_key s \<noteq> snake_key k2"
    and keys: "keys_all str_key (PDict items)"
  shows "\<exists>d v2'. convert_to_snake_case (PDict items) = Inr (PDict d)
           \<and> convert_to_snake_case v2 = Inr v2'
           \<and> map_of d (StrKey (snake_key k2)) = Some v2'
           \<and> distinct (map fst d)
           \<and> length d < length items"
proof -
  from keys have "keys_all_items str_key items" by simp
  then obtain d where d: "convert_items items [] = Inr d"
    using convert_succeeds(2) [of items "[]"] by blast
  have conv: "convert_to_snake_case (PDict items) = Inr (PDict d)" using d by simp
  have "convert_items ((before @ (StrKey k1, v1) # between) @ (StrKey k2, v2) # after) [] = Inr d"
    using d items by simp
  from convert_items_last_binding [OF this last] obtain v2' where
    v2': "convert_to_snake_case v2 = Inr v2'" "map_of d (StrKey (snake_key k2)) = Some v2'"
    by blast
  have dist: "distinct (map fst d)" using convert_items_distinct [OF d] by simp
  define others where "others = before @ (StrKey k1, v1) # between @ after"
  have "fst ` set d = normalised_key ` fst ` set items"
    using convert_items_keys [OF d] by simp
  also have "\<dots> = normalised_key ` fst ` set others"
    unfolding items others_def using collide by auto
  finally have "set (map fst d) = set (map normalised_key (map fst others))"
    by (simp add: image_image)
  then have "card (set (map fst d)) \<le> length (map normalised_key (map fst others))"
    using card_length [of "map normalised_key (map fst others)"] by simp
  moreover have "card (set (map fst d)) = length (map fst d)"
    using dist by (rule distinct_card)
  ultimately have "length d \<le> length others" by simp
  moreover have "length others < length items" unfolding items others_def by simp
  ultimately have "length d < length items" by simp
  then show ?thesis using conv v2' dist by blast
qed

theorem colliding_keys_last_one_wins_witness:
  "([(StrKey ''aB'', POther 1), (StrKey ''a_b'', POther 2), (StrKey ''c'', POther 3)]
      :: (nat pykey \<times> nat pyobj) list)
     = [] @ (StrKey ''aB'', POther 1) # [] @ (StrKey ''a_b'', POther 2) # [(StrKey ''c'', POther 3)]
   \<and> ''aB'' \<noteq> ''a_b''
   \<and> snake_key ''aB'' = snake_key ''a_b''
   \<and> snake_key ''c'' \<noteq> snake_key ''a_b''
   \<and> keys_all str_key
        (PDict [(StrKey ''aB'', POther (1::nat)), (StrKey ''a_b'', POther 2),
                (StrKey ''c'', POther 3)])
   \<and> convert_to_snake_case
        (PDict [(StrKey ''aB'', POther (1::nat)), (StrKey ''a_b'', POther 2),
                (StrKey ''c'', POther 3)])
       = Inr (PDict [(StrKey ''a_b'', POther 2), (StrKey ''c'', POther 3)])
   \<and> (\<exists>d v2'. convert_to_snake_case
                  (PDict [(StrKey ''aB'', POther (1::nat)), (StrKey ''a_b'', POther 2),
                          (StrKey ''c'', POther 3)])
                = Inr (PDict d)
          \<and> convert_to_snake_case (POther (2::nat)) = Inr v2'
          \<and> map_of d (StrKey (snake_key ''a_b'')) = Some v2'
          \<and> distinct (map fst d)
          \<and> length d < length ([(StrKey ''aB'', POther 1), (StrKey ''a_b'', POther 2),
                                  (StrKey ''c'', POther 3)]
                                 :: (nat pykey \<times> nat pyobj) list))"
proof -
  have a: "([(StrKey ''aB'', POther 1), (StrKey ''a_b'', POther 2), (StrKey ''c'', POther 3)]
              :: (nat pykey \<times> nat pyobj) list)
             = [] @ (StrKey ''aB'', POther 1) # [] @ (StrKey ''a_b'', POther 2)
                 # [(StrKey ''c'', POther 3)]"
    by simp
  have b: "''aB'' \<noteq> ''a_b''" by simp
  have c: "snake_key ''aB'' = snake_key ''a_b''" by code_simp
  have c': "snake_key ''c'' \<noteq> snake_key ''a_b''" by code_simp
  have d: "\<forall>(k, v)\<in>set ([(StrKey ''c'', POther 3)] :: (nat pykey \<times> nat pyobj) list).
             \<forall>s. k = StrKey s \<longrightarrow> snake_key s \<noteq> snake_key ''a_b''"
    using c' by simp
  have e: "keys_all str_key
             (PDict [(StrKey ''aB'', POther (1::nat)), (StrKey ''a_b'', POther 2),
                     (StrKey ''c'', POther 3)])"
    by simp
  have f: "convert_to_snake_case
             (PDict [(StrKey ''aB'', POther (1::nat)), (StrKey ''a_b'', POther 2),
                     (StrKey ''c'', POther 3)])
             = Inr (PDict [(StrKey ''a_b'', POther 2), (StrKey ''c'', POther 3)])"
    by code_simp
  note g = colliding_keys_last_one_wins [OF a b c d e]
  show ?thesis
    by (rule conjI [OF a conjI [OF b conjI [OF c conjI [OF c' conjI [OF e conjI [OF f g]]]]]])
qed

section \<open>The parsing loop\<close>

lemma try_attempts_all_caught:
  "\<forall>attempt\<in>set attempts. \<exists>e. attempt w = Inl e \<and> caught e \<Longrightarrow>
     try_attempts attempts w = Inr None"
  by (induction attempts) auto

lemma all_strategies_fail:
  "\<forall>attempt\<in>set (parsing_attempts P). \<exists>e. attempt (working_string s) = Inl e \<and> caught e \<Longrightarrow>
     clean_json_string P s = Inr (failure_record (working_string s))"
  by (simp add: clean_json_string_def try_attempts_all_caught)

lemma try_attempts_skips_caught:
  "\<forall>attempt\<in>set attempts. \<exists>e. attempt w = Inl e \<and> caught e \<Longrightarrow>
     try_attempts (attempts @ later) w = try_attempts later w"
  by (induction attempts) auto

lemma non_string_key_raises_TypeError:
  "convert_to_snake_case (PDict ((OtherKey a, v) # items)) = Inl TypeError"
  by simp

lemma non_string_key_leaves_clean_json_string:
  assumes "json_loads P ''{1: 2}'' = Inl JSONDecodeError"
    and "literal_eval P ''{1: 2}'' = Inr (PDict [(OtherKey a, v)])"
  shows "clean_json_string P ''{1: 2}'' = Inl TypeError"
proof -
  have w: "working_string ''{1: 2}'' = ''{1: 2}''" by code_simp
  have b: "remove_escaped_newlines ''{1: 2}'' = ''{1: 2}''" by code_simp
  have c: "replace_pair backslash (CHR ''n'') '' ''
             (replace_pair backslash dquote [dquote] ''{1: 2}'') = ''{1: 2}''"
    by code_simp
  have d: "blank_escapes ''{1: 2}'' = ''{1: 2}''" by code_simp
  have "\<forall>attempt\<in>set (butlast (parsing_attempts P)).
          \<exists>e. attempt ''{1: 2}'' = Inl e \<and> caught e"
    unfolding parsing_attempts_def using assms(1) b c d by simp
  moreover have "parsing_attempts P = butlast (parsing_attempts P) @ [\<lambda>s. literal_eval P s]"
    by (simp add: parsing_attempts_def)
  ultimately have "try_attempts (parsing_attempts P) ''{1: 2}''
      = try_attempts [\<lambda>s. literal_eval P s] ''{1: 2}''"
    using try_attempts_skips_caught [of "butlast (parsing_attempts P)" "''{1: 2}''"
            "[\<lambda>s. literal_eval P s]"]
    by simp
  then show ?thesis
    unfolding clean_json_string_def Let_def w using assms(2) by simp
qed

lemma convert_is_snake_cased:
  fixes v :: "'a pyobj" and items d :: "('a pykey \<times> 'a pyobj) list" and xs :: "'a pyobj list"
  shows "keys_all str_key v \<Longrightarrow> convert_to_snake_case v = Inr (snake_cased v)"
    and "keys_all_items str_key items \<Longrightarrow>
           convert_items items d
             = Inr (foldl (\<lambda>d (k, v). AList.update k v d) d (snake_cased_items items))"
    and "keys_all_elems str_key xs \<Longrightarrow> convert_elems xs = Inr (snake_cased_elems xs)"
proof (induction v and items d and xs
       rule: convert_to_snake_case_convert_items_convert_elems.induct)
  case (1 items)
  then show ?case by (simp add: dict_of_pairs_def)
next
  case (6 k v rest d)
  from "6.prems" have sk: "str_key k" and kv: "keys_all str_key v"
    and kr: "keys_all_items str_key rest" by simp_all
  obtain s where k: "k = StrKey s" using sk by (cases k) auto
  have v: "convert_to_snake_case v = Inr (snake_cased v)" using "6.IH"(1) [OF k kv] .
  from "6.IH"(2) [OF k v kr] show ?case
    using k v by (simp add: snake_key_underscore_rule)
qed auto

lemma not_the_long_integer: "hd s \<noteq> CHR ''1'' \<Longrightarrow> s \<noteq> replicate 5000 (CHR ''1'')"
  by auto

lemma word_of_ones:
  "0 < n \<Longrightarrow> working_string (replicate n (CHR ''1'')) = replicate n (CHR ''1'')"
proof -
  assume n: "0 < n"
  have sp: "\<not> py_isspace (CHR ''1'')" by (simp add: py_isspace_def)
  have strip: "py_strip (replicate n (CHR ''1'')) = replicate n (CHR ''1'')"
    using sp by (simp add: py_strip_def)
  have "\<not> startswith (replicate n (CHR ''1'')) ''```''"
  proof
    assume "startswith (replicate n (CHR ''1'')) ''```''"
    then have "take (length ''```'') (replicate n (CHR ''1'')) = ''```''"
      unfolding startswith_def .
    then have "set ''```'' \<subseteq> set (replicate n (CHR ''1''))"
      by (metis set_take_subset)
    then show False by auto
  qed
  then show ?thesis by (simp add: working_string_def strip)
qed

text \<open>
  Claim C4, amended. If \<open>json.loads\<close> returns a value for the working string, a value
  with string keys only, as every value that \<open>json.loads\<close> returns is, then the loop
  returns at its first attempt, whatever attempts follow the first in the list, so that
  the statement after the loop, which builds the failure record, is not reached; and
  \<open>clean_json_string\<close> returns the parsed value with every key, at every depth,
  snake-cased: \<open>snake_cased\<close>, whose keys are strings without an uppercase letter.
\<close>

theorem valid_json_is_parsed_by_first_strategy:
  assumes "json_loads P (working_string s) = Inr parsed" and "keys_all str_key parsed"
  shows "try_attempts (parsing_attempts P) (working_string s) = Inr (Some (snake_cased parsed))
         \<and> (\<forall>later. try_attempts ((\<lambda>s. json_loads P s) # later) (working_string s)
                       = Inr (Some (snake_cased parsed)))
         \<and> clean_json_string P s = Inr (snake_cased parsed)
         \<and> keys_all lower_key (snake_cased parsed)"
proof -
  have c: "convert_to_snake_case parsed = Inr (snake_cased parsed)"
    using convert_is_snake_cased(1) [OF assms(2)] .
  have later: "\<forall>later. try_attempts ((\<lambda>s. json_loads P s) # later) (working_string s)
                 = Inr (Some (snake_cased parsed))"
    using assms(1) c by simp
  then have loop: "try_attempts (parsing_attempts P) (working_string s)
                     = Inr (Some (snake_cased parsed))"
    by (simp add: parsing_attempts_def)
  then have "clean_json_string P s = Inr (snake_cased parsed)"
    by (simp add: clean_json_string_def)
  moreover have "keys_all lower_key (snake_cased parsed)"
    using convert_normalises(1) [OF c] by simp
  ultimately show ?thesis using later loop by blast
qed

theorem valid_json_is_parsed_by_first_strategy_witness:
  "json_loads sample_parsers (working_string jane_json)
     = Inr (PDict [(StrKey ''candidateName'', PStr ''Jane''), (StrKey ''scoreOutOfTen'', POther 7)])
   \<and> keys_all str_key
        (PDict [(StrKey ''candidateName'', PStr ''Jane''),
                (StrKey ''scoreOutOfTen'', POther (7::int))])
   \<and> try_attempts (parsing_attempts sample_parsers) (working_string jane_json)
     = Inr (Some (PDict [(StrKey ''candidate_name'', PStr ''Jane''),
                         (StrKey ''score_out_of_ten'', POther 7)]))
   \<and> clean_json_string sample_parsers jane_json
     = Inr (PDict [(StrKey ''candidate_name'', PStr ''Jane''),
                   (StrKey ''score_out_of_ten'', POther 7)])"
proof -
  let ?parsed = "PDict [(StrKey ''candidateName'', PStr ''Jane''),
                        (StrKey ''scoreOutOfTen'', POther (7::int))]"
  have w: "working_string jane_json = jane_json" by code_simp
  have a: "json_loads sample_parsers (working_string jane_json) = Inr ?parsed"
    unfolding w by (simp add: sample_parsers_def)
  have b: "keys_all str_key ?parsed" by simp
  have c: "snake_cased ?parsed
             = PDict [(StrKey ''candidate_name'', PStr ''Jane''),
                      (StrKey ''score_out_of_ten'', POther 7)]"
    by code_simp
  note t = valid_json_is_parsed_by_first_strategy [OF a b, unfolded c]
  from t have "try_attempts (parsing_attempts sample_parsers) (working_string jane_json)
     = Inr (Some (PDict [(StrKey ''candidate_name'', PStr ''Jane''),
                         (StrKey ''score_out_of_ten'', POther 7)]))"
    by (rule conjunct1)
  moreover from t have "clean_json_string sample_parsers jane_json
     = Inr (PDict [(StrKey ''candidate_name'', PStr ''Jane''),
                   (StrKey ''score_out_of_ten'', POther 7)])"
    by blast
  ultimately show ?thesis using a b by blast
qed

text \<open>
  Claim C4 as stated fails: the text of 5000 digits \<open>1\<close> is a JSON integer and needs no
  de-fencing, but \<open>json.loads\<close> refuses to convert an integer of more than 4300 digits
  and raises \<open>ValueError\<close>; \<open>clean_json_string\<close> then returns nothing at the first
  attempt.
\<close>

theorem long_integer_is_not_parsed_counterexample:
  "json_integer (replicate 5000 (CHR ''1''))
   \<and> working_string (replicate 5000 (CHR ''1'')) = replicate 5000 (CHR ''1'')
   \<and> json_loads sample_parsers (replicate 5000 (CHR ''1'')) = Inl ValueError
   \<and> clean_json_string sample_parsers (replicate 5000 (CHR ''1'')) = Inl ValueError"
proof -
  have a: "json_integer (replicate 5000 (CHR ''1''))"
    by (simp add: json_integer_def list_all_iff)
  have w: "working_string (replicate 5000 (CHR ''1'')) = replicate 5000 (CHR ''1'')"
    by (rule word_of_ones) simp
  have "hd (replicate 5000 (CHR ''1'')) \<noteq> hd jane_json"
    by (simp add: jane_json_def)
  then have "replicate 5000 (CHR ''1'') \<noteq> jane_json" by metis
  then have l: "json_loads sample_parsers (replicate 5000 (CHR ''1'')) = Inl ValueError"
    by (simp add: sample_parsers_def)
  have "clean_json_string sample_parsers (replicate 5000 (CHR ''1'')) = Inl ValueError"
    unfolding clean_json_string_def Let_def w parsing_attempts_def using l by simp
  then show ?thesis using a w l by blast
qed

text \<open>
  Claim C1 says that the failure record carries the raw input, code fence included.
  The source assigns the string without its fence to \<open>json_string\<close> and builds the
  record from that variable: for the input \<open>```json\<close>, newline, \<open>not json at all\<close>,
  newline, \<open>```\<close>, which \<open>json.loads\<close> rejects with \<open>JSONDecodeError\<close> and
  \<open>ast.literal_eval\<close> with \<open>SyntaxError\<close> once the fence is removed, the field
  \<open>original_string\<close> is \<open>not json at all\<close> followed by a newline, and not the input.
\<close>

theorem failure_record_holds_the_stripped_string:
  assumes "json_loads P (''not json at all'' @ [newline]) = Inl JSONDecodeError"
    and "literal_eval P (''not json at all'' @ [newline]) = Inl SyntaxError"
  shows "clean_json_string P (''```json'' @ [newline] @ ''not json at all'' @ [newline] @ ''```'')
           = Inr (failure_record (''not json at all'' @ [newline]))
         \<and> clean_json_string P (''```json'' @ [newline] @ ''not json at all'' @ [newline] @ ''```'')
           \<noteq> Inr (failure_record
                    (''```json'' @ [newline] @ ''not json at all'' @ [newline] @ ''```''))"
proof -
  let ?input = "''```json'' @ [newline] @ ''not json at all'' @ [newline] @ ''```''"
  let ?w = "''not json at all'' @ [newline]"
  have w: "working_string ?input = ?w" by code_simp
  have b: "remove_escaped_newlines ?w = ?w" by code_simp
  have c: "replace_pair backslash (CHR ''n'') '' '' (replace_pair backslash dquote [dquote] ?w) = ?w"
    by code_simp
  have d: "blank_escapes ?w = ?w" by code_simp
  have "\<forall>attempt\<in>set (parsing_attempts P). \<exists>e. attempt (working_string ?input) = Inl e \<and> caught e"
    unfolding w parsing_attempts_def using assms b c d by simp
  then have "clean_json_string P ?input = Inr (failure_record (working_string ?input))"
    by (rule all_strategies_fail)
  then have r: "clean_json_string P ?input = Inr (failure_record ?w)" unfolding w .
  have "(failure_record ?w :: 'a pyobj) \<noteq> failure_record ?input"
    by (simp add: failure_record_def)
  then show ?thesis using r by simp
qed

theorem failure_record_holds_the_stripped_string_witness:
  "json_loads sample_parsers (''not json at all'' @ [newline]) = Inl JSONDecodeError
   \<and> literal_eval sample_parsers (''not json at all'' @ [newline]) = Inl SyntaxError
   \<and> clean_json_string sample_parsers
        (''```json'' @ [newline] @ ''not json at all'' @ [newline] @ ''```'')
       = Inr (failure_record (''not json at all'' @ [newline]))"
proof -
  have a: "json_loads sample_parsers (''not json at all'' @ [newline]) = Inl JSONDecodeError"
    by (simp add: sample_parsers_def jane_json_def not_the_long_integer)
  have b: "literal_eval sample_parsers (''not json at all'' @ [newline]) = Inl SyntaxError"
    by (simp add: sample_parsers_def)
  from failure_record_holds_the_stripped_string [OF a b] a b show ?thesis by blast
qed

text \<open>
  Claim C3 says that \<open>clean_json_string\<close> never raises. The loop catches
  \<open>JSONDecodeError\<close> and \<open>SyntaxError\<close> only: for the input \<open>hello\<close>, which
  \<open>json.loads\<close> rejects with \<open>JSONDecodeError\<close> and \<open>ast.literal_eval\<close> rejects with
  \<open>ValueError\<close> (it is a name, not a literal), the \<open>ValueError\<close> leaves
  \<open>clean_json_string\<close>.
\<close>

theorem malformed_literal_raises_ValueError:
  assumes "json_loads P ''hello'' = Inl JSONDecodeError"
    and "literal_eval P ''hello'' = Inl ValueError"
  shows "clean_json_string P ''hello'' = Inl ValueError"
proof -
  have w: "working_string ''hello'' = ''hello''" by code_simp
  have b: "remove_escaped_newlines ''hello'' = ''hello''" by code_simp
  have c: "replace_pair backslash (CHR ''n'') '' ''
             (replace_pair backslash dquote [dquote] ''hello'') = ''hello''"
    by code_simp
  have d: "blank_escapes ''hello'' = ''hello''" by code_simp
  show ?thesis
    unfolding clean_json_string_def Let_def w parsing_attempts_def
    using assms b c d by simp
qed

theorem malformed_literal_raises_ValueError_witness:
  "json_loads sample_parsers ''hello'' = Inl JSONDecodeError
   \<and> literal_eval sample_parsers ''hello'' = Inl ValueError
   \<and> clean_json_string sample_parsers ''hello'' = Inl ValueError"
proof -
  have a: "json_loads sample_parsers ''hello'' = Inl JSONDecodeError"
    by (simp add: sample_parsers_def jane_json_def not_the_long_integer)
  have b: "literal_eval sample_parsers ''hello'' = Inl ValueError"
    by (simp add: sample_parsers_def)
  from malformed_literal_raises_ValueError [OF a b] a b show ?thesis by blast
qed

end
